theory Spec2Isabelle
  imports Main "HOL-Library.Sublist" "HOL-Library.AList"
begin

section \<open>Data model\<close>

text \<open>
  An item of the remote collection, as the cursor reads it: \<open>item.id\<close> and the value of the
  cursor's time field (\<open>getattr(item, self._get_time_field())\<close>), a timestamp.
\<close>

record item =
  item_id :: string
  item_time :: int

text \<open>
  Modelled from the spec: the search request classes (\<open>BaseSearchRequest\<close> and its
  subclasses) are not part of the sources at hand. A request is an immutable record of query
  predicates; for the cursor's time field \<open>T\<close> it carries \<open>T_gte\<close>, \<open>T_gt\<close>, \<open>T_lte\<close> and the
  sibling \<open>id_gt\<close>, every one optional (\<open>None\<close> when unset). \<open>attr.evolve(req, field=v)\<close> is
  the record update \<open>req\<lparr>field := v\<rparr>\<close>. The predicates the cursor never touches are
  \<open>filters\<close>.
\<close>

record search_request =
  T_gte :: "int option"
  T_gt :: "int option"
  T_lte :: "int option"
  id_gt :: "string option"
  filters :: "(string \<times> string) list"

text \<open>\<open>ResponseObjectType\<close>: \<open>items: Optional[List[Any]]\<close>, \<open>has_more: Optional[bool]\<close>.\<close>

record response =
  items :: "item list option"
  has_more :: "bool option"

text \<open>
  Modelled from the spec: \<open>ComplexException\<close> (\<open>util.async_utils\<close>) is not part of the
  sources at hand; it is the combined error that carries a list of exceptions. The other
  exceptions are Python's own (\<open>CancelledError\<close> is asyncio's); \<open>FetchError\<close> stands for
  whatever the fetcher raises and \<open>StorageError\<close> for whatever the storage raises.
\<close>

datatype exn =
    FetchError string
  | ValueError string
  | KeyError string
  | TypeError string
  | CancelledError
  | StorageError string
  | ComplexException "exn list"

text \<open>
  The fetcher (\<open>toloka_client.find_...\<close>) is external and stateful: a call takes the hidden
  state of the remote side, the request and the \<open>sort\<close> argument, and either raises or
  returns a response, leaving a new hidden state.
\<close>

type_synonym 'f fetcher = "'f \<Rightarrow> search_request \<Rightarrow> string \<Rightarrow> (exn + response) \<times> 'f"

text \<open>\<open>DATETIME_MIN = datetime.fromtimestamp(0)\<close>, as a timestamp.\<close>

definition DATETIME_MIN :: int where
  "DATETIME_MIN = 0"

section \<open>The ById sub-cursor\<close>

text \<open>
  One round of \<open>_ByIdCursor.__iter__\<close> after the fetch: when \<open>response.items\<close> is truthy,
  every item is yielded in page order and then the request gets \<open>id_gt = item.id\<close> for the
  last item of the page.
\<close>

definition by_id_page ::
  "search_request \<Rightarrow> item list \<Rightarrow> response \<Rightarrow> search_request \<times> item list" where
  "by_id_page req yielded resp =
     (case items resp of
        None \<Rightarrow> (req, yielded)
      | Some its \<Rightarrow>
          if its = [] then (req, yielded)
          else (req\<lparr>id_gt := Some (item_id (last its))\<rparr>, yielded @ its))"

text \<open>
  \<open>_ByIdCursor.__iter__\<close>, run to its end: \<open>while True\<close> may never leave, so the result is
  \<open>None\<close> when the loop does not return. A returned value holds the exception raised by
  the fetcher if any, the items yielded so far, the sub-cursor's request and the
  fetcher's state.
\<close>

partial_function (option) by_id_loop ::
  "'f fetcher \<Rightarrow> search_request \<Rightarrow> 'f \<Rightarrow> item list
     \<Rightarrow> (exn option \<times> item list \<times> search_request \<times> 'f) option" where
  "by_id_loop fetcher req f yielded =
     (case fetcher f req ''id'' of
        (Inl e, f') \<Rightarrow> Some (Some e, yielded, req, f')
      | (Inr resp, f') \<Rightarrow>
          (case by_id_page req yielded resp of
             (req', yielded') \<Rightarrow>
               if has_more resp \<noteq> Some True then Some (None, yielded', req', f')
               else by_id_loop fetcher req' f' yielded'))"

definition by_id_iter ::
  "'f fetcher \<Rightarrow> search_request \<Rightarrow> 'f
     \<Rightarrow> (exn option \<times> item list \<times> search_request \<times> 'f) option" where
  "by_id_iter fetcher req f = by_id_loop fetcher req f []"

section \<open>BaseCursor\<close>

subsection \<open>The store of seen-id sets\<close>

text \<open>
  \<open>_seen_ids\<close> is a Python set, mutated in place by \<open>add\<close> and reachable from more than one
  place (\<open>_get_state\<close> hands out the reference). Sets therefore live in a store: a cursor
  holds an address, \<open>add\<close> updates the cell behind it, a set display or comprehension and
  \<open>copy.deepcopy\<close> allocate a new cell. Requests and responses are never mutated by this
  code, so they are plain values.
\<close>

record heap =
  cells :: "nat \<Rightarrow> string set"
  next_free :: nat

definition alloc :: "heap \<Rightarrow> string set \<Rightarrow> nat \<times> heap" where
  "alloc h s = (next_free h, h\<lparr>cells := (cells h)(next_free h := s), next_free := Suc (next_free h)\<rparr>)"

definition set_add :: "heap \<Rightarrow> nat \<Rightarrow> string \<Rightarrow> heap" where
  "set_add h a x = h\<lparr>cells := (cells h)(a := insert x (cells h a))\<rparr>"

subsection \<open>Cursor objects\<close>

text \<open>
  The attributes of a cursor object: \<open>_request\<close>, \<open>_prev_response\<close> and \<open>_seen_ids\<close> (an
  address in the store), with the class's \<open>_get_time_field()\<close> as \<open>time_field\<close>. The typed
  cursors differ in the client method that fetches, in the time field and in the event
  class only.
\<close>

record cursor =
  time_field :: string
  request :: search_request
  prev_response :: "response option"
  seen_ids :: nat

text \<open>
  An event wraps the item and copies its time (\<open>TaskEvent(task=item, event_time=item.created)\<close>
  and its siblings).
\<close>

record event =
  event_item :: item
  event_time :: int

definition construct_event :: "item \<Rightarrow> event" where
  "construct_event i = \<lparr>event_item = i, event_time = item_time i\<rparr>"

text \<open>
  \<open>__attrs_post_init__\<close>: a datetime is always truthy, so \<open>not getattr(request, T_gte)\<close>
  holds exactly when the predicate is unset.
\<close>

definition attrs_post_init :: "cursor \<Rightarrow> cursor" where
  "attrs_post_init c =
     (if T_gte (request c) = None
      then c\<lparr>request := (request c)\<lparr>T_gte := Some DATETIME_MIN\<rparr>\<rparr>
      else c)"

text \<open>
  Construction: \<open>_prev_response\<close> defaults to \<open>None\<close>, \<open>_seen_ids\<close> to a new empty set
  (\<open>factory=set\<close>), then \<open>__attrs_post_init__\<close> runs.
\<close>

definition new_cursor :: "string \<Rightarrow> search_request \<Rightarrow> heap \<Rightarrow> cursor \<times> heap" where
  "new_cursor tf req h =
     (case alloc h {} of
        (a, h') \<Rightarrow>
          (attrs_post_init \<lparr>time_field = tf, request = req, prev_response = None, seen_ids = a\<rparr>, h'))"

type_synonym cursor_state = "search_request \<times> response option \<times> nat"

definition get_state :: "cursor \<Rightarrow> cursor_state" where
  "get_state c = (request c, prev_response c, seen_ids c)"

definition set_state :: "cursor \<Rightarrow> cursor_state \<Rightarrow> cursor" where
  "set_state c st =
     (case st of (r, p, s) \<Rightarrow> c\<lparr>request := r, prev_response := p, seen_ids := s\<rparr>)"

definition inject :: "cursor \<Rightarrow> cursor \<Rightarrow> cursor" where
  "inject c injection = set_state c (get_state injection)"

text \<open>
  What an observer of the cursor can read: the request, the previous response and the
  contents of the seen-id set.
\<close>

definition observable :: "heap \<Rightarrow> cursor \<Rightarrow> search_request \<times> response option \<times> string set" where
  "observable h c = (request c, prev_response c, cells h (seen_ids c))"

subsection \<open>Iteration\<close>

text \<open>
  The \<open>for item in response.items\<close> loop of \<open>__iter__\<close>: an item whose id is not in the seen
  set moves \<open>T_gte\<close> to its time, is added to the set in place and is yielded as an event.
\<close>

fun page_loop :: "cursor \<Rightarrow> heap \<Rightarrow> item list \<Rightarrow> event list \<times> cursor \<times> heap" where
  "page_loop c h [] = ([], c, h)"
| "page_loop c h (i # rest) =
     (if item_id i \<notin> cells h (seen_ids c)
      then (case page_loop (c\<lparr>request := (request c)\<lparr>T_gte := Some (item_time i)\<rparr>\<rparr>)
                    (set_add h (seen_ids c) (item_id i)) rest of
              (evs, c', h') \<Rightarrow> (construct_event i # evs, c', h'))
      else page_loop c h rest)"

text \<open>
  The body of \<open>for item in _ByIdCursor(fetcher, fixed_time_request)\<close>, over the items the
  sub-cursor yields: an unseen item is added to the set and yielded; the request stays.
\<close>

fun drain_loop :: "cursor \<Rightarrow> heap \<Rightarrow> item list \<Rightarrow> event list \<times> heap" where
  "drain_loop c h [] = ([], h)"
| "drain_loop c h (i # rest) =
     (if item_id i \<notin> cells h (seen_ids c)
      then (case drain_loop c (set_add h (seen_ids c) (item_id i)) rest of
              (evs, h') \<Rightarrow> (construct_event i # evs, h'))
      else drain_loop c h rest)"

text \<open>
  \<open>self._seen_ids = {item.id for item in response.items}\<close>: a new set object, and the
  attribute rebound to it.
\<close>

definition strip_seen :: "cursor \<Rightarrow> heap \<Rightarrow> item list \<Rightarrow> cursor \<times> heap" where
  "strip_seen c h its =
     (case alloc h (set (map item_id its)) of (a, h') \<Rightarrow> (c\<lparr>seen_ids := a\<rparr>, h'))"

text \<open>
  One pass through the body of \<open>while True\<close> in \<open>BaseCursor.__iter__\<close>, with the events
  yielded so far. The pass either leaves the generator (\<open>Return\<close>: by \<open>return\<close>, or by an
  exception of the fetcher, then with that exception) or reaches the end of the body
  (\<open>Again\<close>) with the cursor, the store, the fetcher's state and the events at that moment.
  It is \<open>None\<close> when the sub-cursor never returns. When the sub-cursor raises, the items it
  had yielded before have been through the loop body already.
\<close>

datatype 'f round =
    Return "exn option \<times> event list \<times> cursor \<times> heap \<times> 'f"
  | Again cursor heap 'f "event list"

definition cursor_round ::
  "'f fetcher \<Rightarrow> cursor \<Rightarrow> heap \<Rightarrow> 'f \<Rightarrow> event list \<Rightarrow> 'f round option" where
  "cursor_round fetcher c h f yielded =
     (case fetcher f (request c) (time_field c) of
        (Inl e, f1) \<Rightarrow> Some (Return (Some e, yielded, c, h, f1))
      | (Inr resp, f1) \<Rightarrow>
          (case items resp of
             None \<Rightarrow> Some (Return (None, yielded, c, h, f1))
           | Some its \<Rightarrow>
               if its = [] then Some (Return (None, yielded, c, h, f1))
               else
                 (case page_loop (c\<lparr>prev_response := Some resp\<rparr>) h its of
                    (evs, c2, h2) \<Rightarrow>
                      if has_more resp \<noteq> Some True
                      then Some (Return (None, yielded @ evs, c2, h2, f1))
                      else if item_time (hd its) = item_time (last its)
                      then
                        (case by_id_iter fetcher
                                ((request c2)\<lparr>T_lte := Some (item_time (last its))\<rparr>) f1 of
                           None \<Rightarrow> None
                         | Some (err, ditems, breq, f2) \<Rightarrow>
                             (case drain_loop c2 h2 ditems of
                                (devs, h3) \<Rightarrow>
                                  (case err of
                                     Some e \<Rightarrow>
                                       Some (Return (Some e, yielded @ evs @ devs, c2, h3, f2))
                                   | None \<Rightarrow>
                                       (case strip_seen
                                               (c2\<lparr>request :=
                                                     (request c2)\<lparr>T_gt := Some (item_time (last its))\<rparr>\<rparr>)
                                               h3 its of
                                          (c4, h4) \<Rightarrow>
                                            Some (Again c4 h4 f2 (yielded @ evs @ devs))))))
                      else
                        (case strip_seen c2 h2 its of
                           (c4, h4) \<Rightarrow> Some (Again c4 h4 f1 (yielded @ evs))))))"

text \<open>
  \<open>BaseCursor.__iter__\<close>, run to its end. The result is \<open>None\<close> when the loop (or the
  sub-cursor's loop) never returns; otherwise it holds the exception that ended the
  iteration if any, every event yielded, and the cursor, the store and the fetcher's
  state at that moment.
\<close>

partial_function (option) cursor_loop ::
  "'f fetcher \<Rightarrow> cursor \<Rightarrow> heap \<Rightarrow> 'f \<Rightarrow> event list
     \<Rightarrow> (exn option \<times> event list \<times> cursor \<times> heap \<times> 'f) option" where
  "cursor_loop fetcher c h f yielded =
     (case cursor_round fetcher c h f yielded of
        None \<Rightarrow> None
      | Some (Return r) \<Rightarrow> Some r
      | Some (Again c' h' f' yielded') \<Rightarrow> cursor_loop fetcher c' h' f' yielded')"

definition cursor_iter ::
  "'f fetcher \<Rightarrow> cursor \<Rightarrow> heap \<Rightarrow> 'f
     \<Rightarrow> (exn option \<times> event list \<times> cursor \<times> heap \<times> 'f) option" where
  "cursor_iter fetcher c h f = cursor_loop fetcher c h f []"

text \<open>
  \<open>list(it)\<close> called \<open>n\<close> times on the same cursor object, each iteration run to its end
  before the next starts; the events of all iterations in the order they were yielded. An
  exception ends the sequence.
\<close>

fun iter_many ::
  "'f fetcher \<Rightarrow> nat \<Rightarrow> cursor \<Rightarrow> heap \<Rightarrow> 'f
     \<Rightarrow> (exn option \<times> event list \<times> cursor \<times> heap \<times> 'f) option" where
  "iter_many fetcher 0 c h f = Some (None, [], c, h, f)"
| "iter_many fetcher (Suc n) c h f =
     (case cursor_iter fetcher c h f of
        None \<Rightarrow> None
      | Some (err, evs, c1, h1, f1) \<Rightarrow>
          (case err of
             Some e \<Rightarrow> Some (Some e, evs, c1, h1, f1)
           | None \<Rightarrow>
               (case iter_many fetcher n c1 h1 f1 of
                  None \<Rightarrow> None
                | Some (err2, evs2, c2, h2, f2) \<Rightarrow> Some (err2, evs @ evs2, c2, h2, f2))))"

subsection \<open>try_fetch_all\<close>

text \<open>
  \<open>CursorFetchContext\<close>: the two saved states, both \<open>None\<close> at construction. The cursor it
  refers to is passed to \<open>__enter__\<close> and \<open>__exit__\<close> explicitly.
\<close>

record fetch_context =
  start_state :: "cursor_state option"
  finish_state :: "cursor_state option"

definition try_fetch_all :: "cursor \<Rightarrow> fetch_context" where
  "try_fetch_all c = \<lparr>start_state = None, finish_state = None\<rparr>"

text \<open>
  \<open>copy.deepcopy\<close> of a state tuple: the set is copied into a new cell; the request and
  the response are immutable values.
\<close>

definition deepcopy_state :: "heap \<Rightarrow> cursor_state \<Rightarrow> cursor_state \<times> heap" where
  "deepcopy_state h st =
     (case st of (r, p, s) \<Rightarrow> (case alloc h (cells h s) of (a, h') \<Rightarrow> ((r, p, a), h')))"

text \<open>
  \<open>__enter__\<close>. When the iteration raises, the exception leaves \<open>__enter__\<close> at that point:
  \<open>_finish_state\<close> is not set and the cursor is not put back.
\<close>

definition ctx_enter ::
  "'f fetcher \<Rightarrow> fetch_context \<Rightarrow> cursor \<Rightarrow> heap \<Rightarrow> 'f
     \<Rightarrow> ((exn + event list) \<times> fetch_context \<times> cursor \<times> heap \<times> 'f) option" where
  "ctx_enter fetcher ctx c h f =
     (case deepcopy_state h (get_state c) of
        (st0, h1) \<Rightarrow>
          (case cursor_iter fetcher c h1 f of
             None \<Rightarrow> None
           | Some (err, res, c1, h2, f1) \<Rightarrow>
               (case err of
                  Some e \<Rightarrow> Some (Inl e, ctx\<lparr>start_state := Some st0\<rparr>, c1, h2, f1)
                | None \<Rightarrow>
                    Some (Inr res,
                          ctx\<lparr>start_state := Some st0, finish_state := Some (get_state c1)\<rparr>,
                          set_state c1 st0, h2, f1))))"

text \<open>
  \<open>__exit__(exc_type, ...)\<close>, with the exception that left the scope if any. Unpacking a
  \<open>_finish_state\<close> that is still \<open>None\<close> raises \<open>TypeError\<close>.
\<close>

definition ctx_exit :: "fetch_context \<Rightarrow> cursor \<Rightarrow> exn option \<Rightarrow> exn + cursor" where
  "ctx_exit ctx c exc =
     (case exc of
        None \<Rightarrow>
          (case finish_state ctx of
             None \<Rightarrow> Inl (TypeError ''cannot unpack non-iterable NoneType object'')
           | Some st \<Rightarrow> Inr (set_state c st))
      | Some e \<Rightarrow> Inr c)"

subsection \<open>Fetchers for scenarios\<close>

text \<open>
  A fetcher that replays a fixed sequence of outcomes, one per call, whatever is asked;
  its state is the number of calls made.
\<close>

definition replay :: "(nat \<Rightarrow> exn + response) \<Rightarrow> nat fetcher" where
  "replay rs n req sort_arg = (rs n, Suc n)"

text \<open>The outcomes of a finite script; a call past its end raises.\<close>

definition script :: "(exn + response) list \<Rightarrow> nat \<Rightarrow> exn + response" where
  "script rs n = (if n < length rs then rs ! n else Inl (FetchError ''end of script''))"

text \<open>
  A fetcher together with the record of its calls: the request issued, the \<open>sort\<close>
  argument and the outcome, oldest first.
\<close>

type_synonym call = "search_request \<times> string \<times> (exn + response)"

definition logged :: "'f fetcher \<Rightarrow> ('f \<times> call list) fetcher" where
  "logged fetcher s req sort_arg =
     (case s of
        (f, calls) \<Rightarrow>
          (case fetcher f req sort_arg of
             (r, f') \<Rightarrow> (r, (f', calls @ [(req, sort_arg, r)]))))"

section \<open>Pipeline\<close>

text \<open>
  \<open>_Worker\<close>: equality and hash are by \<open>name\<close>, so the dictionaries keyed by workers
  (\<open>waiting\<close>, \<open>pending\<close>) are maps keyed by the name.
\<close>

record 'o worker =
  name :: string
  observer :: 'o
  should_resume :: bool

text \<open>
  A done \<open>asyncio.Task\<close> carries the attributes the pipeline attached (\<open>worker\<close>,
  \<open>start_time\<close>) and the way it ended: the observer returned, it raised, or the task was
  cancelled.
\<close>

datatype task_outcome = Returned | Raised exn | Cancelled

record 'o task =
  task_worker :: "'o worker"
  start_time :: int
  outcome :: task_outcome

text \<open>
  \<open>task.exception()\<close> of a done task: \<open>None\<close> when the observer returned, the exception when
  it raised; for a cancelled task the call itself raises \<open>CancelledError\<close>.
\<close>

definition exception :: "'o task \<Rightarrow> exn + exn option" where
  "exception t =
     (case outcome t of
        Returned \<Rightarrow> Inr None
      | Raised e \<Rightarrow> Inr (Some e)
      | Cancelled \<Rightarrow> Inl CancelledError)"

text \<open>
  The attributes of a pipeline: \<open>period\<close>, the optional \<open>storage\<close>, the optional \<open>name\<close> and
  \<open>_observers\<close>, a dictionary keyed by \<open>id(observer)\<close> in insertion order.
\<close>

record ('o, 's) pipeline =
  period :: int
  storage :: "'s option"
  pipeline_name :: "string option"
  observers :: "(nat \<times> 'o) list"

text \<open>
  Modelled from the spec: \<open>BaseStorage\<close> is not part of the sources at hand. Its \<open>save\<close>
  takes the pipeline key and a mapping from observer key to observer, and either raises or
  returns, leaving a new storage content.
\<close>

type_synonym ('o, 's) saver = "'s \<Rightarrow> string \<Rightarrow> (string \<rightharpoonup> 'o) \<Rightarrow> exn option \<times> 's"

definition register :: "('o, 's) pipeline \<Rightarrow> nat \<Rightarrow> 'o \<Rightarrow> ('o, 's) pipeline \<times> 'o" where
  "register p ident ob = (p\<lparr>observers := AList.update ident ob (observers p)\<rparr>, ob)"

text \<open>\<open>{worker.name: worker.observer for worker in workers}\<close>: a later worker of the same name wins.\<close>

definition observer_by_key :: "'o worker list \<Rightarrow> (string \<rightharpoonup> 'o)" where
  "observer_by_key workers = fold (\<lambda>w m. m(name w \<mapsto> observer w)) workers Map.empty"

definition storage_save ::
  "('o, 's) saver \<Rightarrow> 's option \<Rightarrow> string \<Rightarrow> 'o worker list \<Rightarrow> exn option \<times> 's option" where
  "storage_save save st pipeline_key workers =
     (case st of
        None \<Rightarrow> (None, None)
      | Some s \<Rightarrow>
          (case save s pipeline_key (observer_by_key workers) of
             (err, s') \<Rightarrow> (err, Some s')))"

text \<open>
  The \<open>for task in done\<close> loop of \<open>_process_done_tasks\<close>, over the tasks in the order the set
  hands them out. \<open>del waiting[task.worker]\<close> raises \<open>KeyError\<close> for a worker that is not
  waiting, and \<open>task.exception()\<close> raises for a cancelled task; either ends the loop at that
  task. An exception object is truthy.
\<close>

fun done_loop ::
  "int \<Rightarrow> 'o task list \<Rightarrow> (string \<rightharpoonup> 'o task) \<Rightarrow> (string \<rightharpoonup> int) \<Rightarrow> 'o worker list \<Rightarrow> 'o task list
     \<Rightarrow> exn option \<times> (string \<rightharpoonup> 'o task) \<times> (string \<rightharpoonup> int) \<times> 'o worker list \<times> 'o task list" where
  "done_loop per [] waiting pending workers_to_dump errored =
     (None, waiting, pending, workers_to_dump, errored)"
| "done_loop per (t # ts) waiting pending workers_to_dump errored =
     (case waiting (name (task_worker t)) of
        None \<Rightarrow> (Some (KeyError (name (task_worker t))), waiting, pending, workers_to_dump, errored)
      | Some w \<Rightarrow>
          (case exception t of
             Inl e \<Rightarrow>
               (Some e, waiting(name (task_worker t) := None), pending, workers_to_dump, errored)
           | Inr (Some e) \<Rightarrow>
               done_loop per ts (waiting(name (task_worker t) := None)) pending
                 workers_to_dump (errored @ [t])
           | Inr None \<Rightarrow>
               done_loop per ts (waiting(name (task_worker t) := None))
                 (pending(name (task_worker t) \<mapsto> start_time t + per))
                 (workers_to_dump @ [task_worker t]) errored))"

text \<open>
  \<open>task.exception()\<close> as the list comprehension over \<open>errored\<close> reads it: these tasks are
  done and not cancelled, so the call returns.
\<close>

definition raised :: "'o task \<Rightarrow> exn option" where
  "raised t = (case exception t of Inl e \<Rightarrow> None | Inr r \<Rightarrow> r)"

text \<open>
  \<open>_process_done_tasks\<close>: the exception it raises if any, with \<open>waiting\<close> and \<open>pending\<close> as it
  left them and the storage content.
\<close>

definition process_done_tasks ::
  "('o, 's) saver \<Rightarrow> ('o, 's) pipeline \<Rightarrow> string \<Rightarrow> 'o task list
     \<Rightarrow> (string \<rightharpoonup> 'o task) \<Rightarrow> (string \<rightharpoonup> int)
     \<Rightarrow> exn option \<times> (string \<rightharpoonup> 'o task) \<times> (string \<rightharpoonup> int) \<times> 's option" where
  "process_done_tasks save p pipeline_key done_tasks waiting pending =
     (case done_loop (period p) done_tasks waiting pending [] [] of
        (Some e, waiting', pending', workers_to_dump, errored) \<Rightarrow>
          (Some e, waiting', pending', storage p)
      | (None, waiting', pending', workers_to_dump, errored) \<Rightarrow>
          (case storage_save save (storage p) pipeline_key workers_to_dump of
             (Some e, st') \<Rightarrow> (Some e, waiting', pending', st')
           | (None, st') \<Rightarrow>
               if errored \<noteq> []
               then (Some (ComplexException (List.map_filter raised errored)),
                     waiting', pending', st')
               else (None, waiting', pending', st')))"

text \<open>
  The entry of \<open>Pipeline.run\<close>: the check for registered observers, then the scheduling loop,
  which is a parameter here.
\<close>

definition run :: "('o, 's) pipeline \<Rightarrow> (('o, 's) pipeline \<Rightarrow> exn + 'r) \<Rightarrow> exn + 'r" where
  "run p scheduling_loop =
     (if observers p = [] then Inl (ValueError ''No observers registered'')
      else scheduling_loop p)"

section \<open>What the loops compute\<close>

text \<open>
  The items of a list that a loop with a seen set lets through: those whose id is neither
  in the set nor carried by an earlier item of the list.
\<close>

fun unseen :: "string set \<Rightarrow> item list \<Rightarrow> item list" where
  "unseen S [] = []"
| "unseen S (i # rest) =
     (if item_id i \<in> S then unseen S rest else i # unseen (insert (item_id i) S) rest)"

text \<open>The request after a page: \<open>T_gte\<close> is the time of the last item let through, if any.\<close>

definition advance_gte :: "search_request \<Rightarrow> item list \<Rightarrow> search_request" where
  "advance_gte req new = (if new = [] then req else req\<lparr>T_gte := Some (item_time (last new))\<rparr>)"

text \<open>
  The items of a response and the sub-cursor's request after it: \<open>id_gt\<close> is the id of the
  last item when there is one.
\<close>

definition page_items :: "response \<Rightarrow> item list" where
  "page_items resp = (case items resp of None \<Rightarrow> [] | Some its \<Rightarrow> its)"

definition advance_id :: "search_request \<Rightarrow> response \<Rightarrow> search_request" where
  "advance_id req resp =
     (if page_items resp = [] then req
      else req\<lparr>id_gt := Some (item_id (last (page_items resp)))\<rparr>)"

text \<open>
  For a pass over a page \<open>its\<close> that shares one timestamp: the fixed-time request handed to
  the sub-cursor; and, when the fetcher's responses are \<open>rs\<close> and the page was response
  \<open>n0\<close>, the items of the responses \<open>n0 + 1\<close> to \<open>n\<close> and the calls that fetch them, each
  with the request as the pages before it have left it.
\<close>

definition fixed_time_request :: "cursor \<Rightarrow> heap \<Rightarrow> item list \<Rightarrow> search_request" where
  "fixed_time_request c h its =
     (advance_gte (request c) (unseen (cells h (seen_ids c)) its))
       \<lparr>T_lte := Some (item_time (last its))\<rparr>"

definition drained :: "(nat \<Rightarrow> response) \<Rightarrow> nat \<Rightarrow> nat \<Rightarrow> item list" where
  "drained rs n0 n = concat (map (page_items \<circ> rs) [Suc n0..<Suc n])"

definition drain_calls :: "(nat \<Rightarrow> response) \<Rightarrow> search_request \<Rightarrow> nat \<Rightarrow> nat \<Rightarrow> call list" where
  "drain_calls rs req n0 n =
     map (\<lambda>k. (foldl advance_id req (map rs [Suc n0..<k]), ''id'', Inr (rs k))) [Suc n0..<Suc n]"

text \<open>The workers of the tasks whose observer returned, in the order of the tasks.\<close>

definition succeeded :: "'o task list \<Rightarrow> 'o worker list" where
  "succeeded ts = map task_worker (filter (\<lambda>t. outcome t = Returned) ts)"

section \<open>The fetcher's contract and the cursor's frontier\<close>

text \<open>
  A time satisfies the lower bounds of a request (\<open>T_gte\<close>, \<open>T_gt\<close>); an item satisfies the
  time predicates of a request (the lower bounds and \<open>T_lte\<close>).
\<close>

definition lower_ok :: "search_request \<Rightarrow> int \<Rightarrow> bool" where
  "lower_ok req t =
     ((case T_gte req of None \<Rightarrow> True | Some g \<Rightarrow> g \<le> t)
      \<and> (case T_gt req of None \<Rightarrow> True | Some g \<Rightarrow> g < t))"

definition admits :: "search_request \<Rightarrow> item \<Rightarrow> bool" where
  "admits req i =
     (lower_ok req (item_time i)
      \<and> (case T_lte req of None \<Rightarrow> True | Some g \<Rightarrow> item_time i \<le> g))"

text \<open>
  A call is answered as the fetcher's contract has it, for a cursor with time field \<open>tf\<close>:
  every item of the response satisfies the time predicates of the request, and the
  response to a call sorted by the time field is in ascending order of time. An exception
  satisfies it.
\<close>

definition follows_contract :: "string \<Rightarrow> call \<Rightarrow> bool" where
  "follows_contract tf call =
     (case call of
        (req, sort_arg, out) \<Rightarrow>
          (case out of
             Inl e \<Rightarrow> True
           | Inr resp \<Rightarrow>
               (\<forall>i\<in>set (page_items resp). admits req i)
               \<and> (sort_arg = tf \<longrightarrow> sorted (map item_time (page_items resp)))))"

text \<open>
  The items of a response are as in the data model, where an item's time never changes:
  each carries the time \<open>tm\<close> gives to its id.
\<close>

definition same_times :: "(string \<Rightarrow> int) \<Rightarrow> call \<Rightarrow> bool" where
  "same_times tm call =
     (case call of
        (req, sort_arg, out) \<Rightarrow>
          (case out of
             Inl e \<Rightarrow> True
           | Inr resp \<Rightarrow> (\<forall>i\<in>set (page_items resp). item_time i = tm (item_id i))))"

definition well_behaved :: "(string \<Rightarrow> int) \<Rightarrow> string \<Rightarrow> call \<Rightarrow> bool" where
  "well_behaved tm tf call = (follows_contract tf call \<and> same_times tm call)"

text \<open>
  The invariant behind deduplication, for the set \<open>E\<close> of ids emitted so far, the seen set
  \<open>S\<close> and the request: every seen id was emitted; no seen id has a time above a time the
  request still admits; an emitted id that is no longer seen has a time the request no
  longer admits.
\<close>

definition frontier_inv ::
  "(string \<Rightarrow> int) \<Rightarrow> string set \<Rightarrow> string set \<Rightarrow> search_request \<Rightarrow> bool" where
  "frontier_inv tm E S req =
     (S \<subseteq> E
      \<and> (\<forall>x\<in>S. \<forall>t. lower_ok req t \<longrightarrow> tm x \<le> t)
      \<and> (\<forall>x\<in>E. x \<notin> S \<longrightarrow> \<not> lower_ok req (tm x)))"

definition cursor_inv :: "(string \<Rightarrow> int) \<Rightarrow> cursor \<Rightarrow> heap \<Rightarrow> event list \<Rightarrow> bool" where
  "cursor_inv tm c h ys =
     (frontier_inv tm (set (map (item_id \<circ> event_item) ys)) (cells h (seen_ids c)) (request c)
      \<and> distinct (map (item_id \<circ> event_item) ys))"

text \<open>The result of an iteration that started with events already yielded.\<close>

fun prepend ::
  "event list \<Rightarrow> exn option \<times> event list \<times> cursor \<times> heap \<times> 'f
     \<Rightarrow> exn option \<times> event list \<times> cursor \<times> heap \<times> 'f" where
  "prepend ys (err, evs, rest) = (err, ys @ evs, rest)"

section \<open>Concrete inputs\<close>

text \<open>A sequence of responses, none of them an exception, as outcomes of the fetcher.\<close>

definition answers :: "(nat \<Rightarrow> response) \<Rightarrow> nat \<Rightarrow> exn + response" where
  "answers rs n = Inr (rs n)"

definition two_pages :: "nat \<Rightarrow> response" where
  "two_pages k =
     (if k = 0
      then \<lparr>items = Some [\<lparr>item_id = ''x4'', item_time = 5\<rparr>, \<lparr>item_id = ''x5'', item_time = 5\<rparr>],
            has_more = Some True\<rparr>
      else \<lparr>items = Some [\<lparr>item_id = ''x6'', item_time = 5\<rparr>], has_more = None\<rparr>)"

text \<open>
  A page of three items at time 5, then two id-sorted pages: the first two items again,
  then the third and two more.
\<close>

definition drain_pages :: "nat \<Rightarrow> response" where
  "drain_pages k =
     (if k = 0
      then \<lparr>items = Some [\<lparr>item_id = ''x1'', item_time = 5\<rparr>, \<lparr>item_id = ''x2'', item_time = 5\<rparr>,
                         \<lparr>item_id = ''x3'', item_time = 5\<rparr>],
            has_more = Some True\<rparr>
      else if k = 1
      then \<lparr>items = Some [\<lparr>item_id = ''x1'', item_time = 5\<rparr>, \<lparr>item_id = ''x2'', item_time = 5\<rparr>],
            has_more = Some True\<rparr>
      else \<lparr>items = Some [\<lparr>item_id = ''x3'', item_time = 5\<rparr>, \<lparr>item_id = ''x4'', item_time = 5\<rparr>,
                         \<lparr>item_id = ''x5'', item_time = 5\<rparr>],
            has_more = Some False\<rparr>)"

definition empty_heap :: heap where
  "empty_heap = \<lparr>cells = (\<lambda>a. {}), next_free = 0\<rparr>"

definition blank_request :: search_request where
  "blank_request = \<lparr>T_gte = None, T_gt = None, T_lte = None, id_gt = None, filters = []\<rparr>"

definition page :: "(string \<times> int) list \<Rightarrow> bool \<Rightarrow> exn + response" where
  "page xs hm =
     Inr \<lparr>items = Some (map (\<lambda>(i, t). \<lparr>item_id = i, item_time = t\<rparr>) xs), has_more = Some hm\<rparr>"

definition fresh_cursor :: cursor where
  "fresh_cursor = fst (new_cursor ''created'' blank_request empty_heap)"

definition fresh_heap :: heap where
  "fresh_heap = snd (new_cursor ''created'' blank_request empty_heap)"

text \<open>
  Scenario S2: a page of three items at time 5 with \<open>has_more\<close> true, the sub-cursor's page
  of two more items at time 5, then a page with one item at time 6.
\<close>

definition bucket_overflow :: "(exn + response) list" where
  "bucket_overflow =
     [page [(''x1'', 5), (''x2'', 5), (''x3'', 5)] True,
      page [(''x4'', 5), (''x5'', 5)] False,
      page [(''y1'', 6)] False]"

text \<open>
  Of the result of an iteration over a logged fetcher: the exception, the ids of the events
  in order, the final \<open>T_gt\<close>, and for every call its \<open>T_gte\<close>, \<open>T_gt\<close>, \<open>T_lte\<close>, \<open>id_gt\<close> and
  \<open>sort\<close>.
\<close>

definition summary ::
  "exn option \<times> event list \<times> cursor \<times> heap \<times> nat \<times> call list
     \<Rightarrow> exn option \<times> string list \<times> int option
         \<times> (int option \<times> int option \<times> int option \<times> string option \<times> string) list" where
  "summary r =
     (case r of
        (err, evs, c, h, n, calls) \<Rightarrow>
          (err, map (item_id \<circ> event_item) evs, T_gt (request c),
           map (\<lambda>(req, s, out). (T_gte req, T_gt req, T_lte req, id_gt req, s)) calls))"

text \<open>
  Two iterations over one collection: a page of three items at time 5, the sub-cursor's
  page with these and a fourth, a page that ends at a later time, the last page of the
  first iteration, and the only page of the second iteration; with the time of every id.
\<close>

definition two_iterations :: "(exn + response) list" where
  "two_iterations =
     [page [(''x1'', 5), (''x2'', 5), (''x3'', 5)] True,
      page [(''x1'', 5), (''x2'', 5), (''x3'', 5), (''x4'', 5)] False,
      page [(''y1'', 6), (''y2'', 7)] True,
      page [(''y2'', 7), (''z'', 8)] False,
      page [(''z'', 8), (''w'', 9)] False]"

text \<open>
  One iteration in which the id \<open>a\<close> comes back with a later time: every page is sorted and
  within the bounds of the request it answers.
\<close>

definition changed_time :: "(exn + response) list" where
  "changed_time =
     [page [(''a'', 1), (''b'', 2)] True,
      page [(''c'', 3), (''d'', 4)] True,
      page [(''a'', 5)] False]"

definition time_of_id :: "string \<Rightarrow> int" where
  "time_of_id x =
     (case map_of [(''x1'', 5), (''x2'', 5), (''x3'', 5), (''x4'', 5), (''y1'', 6), (''y2'', 7),
                   (''z'', 8), (''w'', 9)] x of
        Some t \<Rightarrow> t
      | None \<Rightarrow> 0)"

text \<open>
  A fetcher that returns a page with \<open>has_more\<close> true, raises on the next call, and
  answers the call after that.
\<close>

definition interrupted :: "(exn + response) list" where
  "interrupted =
     [page [(''e1'', 1), (''e2'', 2)] True,
      Inl (FetchError ''connection lost''),
      page [(''e2'', 2), (''e3'', 3)] False]"

text \<open>A second cursor, constructed after the first.\<close>

definition other_cursor :: cursor where
  "other_cursor = fst (new_cursor ''created'' blank_request fresh_heap)"

definition two_heap :: heap where
  "two_heap = snd (new_cursor ''created'' blank_request fresh_heap)"

text \<open>
  Three done tasks: observer \<open>A\<close> returned, observer \<open>B\<close> raised, the task of observer \<open>C\<close>
  was cancelled. One storage keeps the mapping it was last given, the other raises on
  \<open>save\<close>.
\<close>

definition task_A :: "string task" where
  "task_A = \<lparr>task_worker = \<lparr>name = ''A'', observer = ''state of A'', should_resume = True\<rparr>,
             start_time = 100, outcome = Returned\<rparr>"

definition task_B :: "string task" where
  "task_B = \<lparr>task_worker = \<lparr>name = ''B'', observer = ''state of B'', should_resume = False\<rparr>,
             start_time = 100, outcome = Raised (FetchError ''E'')\<rparr>"

definition task_C :: "string task" where
  "task_C = \<lparr>task_worker = \<lparr>name = ''C'', observer = ''state of C'', should_resume = False\<rparr>,
             start_time = 100, outcome = Cancelled\<rparr>"

definition keep_last :: "(string, string \<rightharpoonup> string) saver" where
  "keep_last s pipeline_key m = (None, m)"

definition save_fails :: "(string, string \<rightharpoonup> string) saver" where
  "save_fails s pipeline_key m = (Some (StorageError ''unavailable''), s)"

definition two_observers :: "(string, string \<rightharpoonup> string) pipeline" where
  "two_observers = \<lparr>period = 60, storage = Some Map.empty, pipeline_name = None,
                     observers = [(1, ''state of A''), (2, ''state of B'')]\<rparr>"

section \<open>Construction\<close>

text \<open>
  C7. After construction the request's \<open>T_gte\<close> is set: to \<open>DATETIME_MIN\<close> when the caller
  left it unset, to the caller's value otherwise; it is never \<open>None\<close>. This holds for
  \<open>__attrs_post_init__\<close> on any cursor and for a newly constructed cursor.
\<close>

theorem post_init_sets_T_gte:
  "T_gte (request (attrs_post_init c)) =
     (case T_gte (request c) of None \<Rightarrow> Some DATETIME_MIN | Some t \<Rightarrow> Some t)
   \<and> T_gte (request (attrs_post_init c)) \<noteq> None
   \<and> T_gte (request (fst (new_cursor tf req h))) =
       (case T_gte req of None \<Rightarrow> Some DATETIME_MIN | Some t \<Rightarrow> Some t)"
  by (simp add: attrs_post_init_def new_cursor_def alloc_def split: option.splits)

section \<open>Iteration of the ById sub-cursor\<close>

lemma by_id_page_eq: "by_id_page req yielded resp = (advance_id req resp, yielded @ page_items resp)"
  by (simp add: by_id_page_def advance_id_def page_items_def split: option.splits)

lemma by_id_loop_stops:
  assumes "fetcher f req ''id'' = (Inr resp, f')" and "has_more resp \<noteq> Some True"
  shows "by_id_loop fetcher req f yielded = Some (None, yielded @ page_items resp, advance_id req resp, f')"
  using assms by (subst by_id_loop.simps) (simp add: by_id_page_eq)

lemma by_id_loop_goes_on:
  assumes "fetcher f req ''id'' = (Inr resp, f')" and "has_more resp = Some True"
  shows "by_id_loop fetcher req f yielded
           = by_id_loop fetcher (advance_id req resp) f' (yielded @ page_items resp)"
  using assms by (subst by_id_loop.simps) (simp add: by_id_page_eq)

lemma by_id_loop_raises:
  assumes "fetcher f req ''id'' = (Inl e, f')"
  shows "by_id_loop fetcher req f yielded = Some (Some e, yielded, req, f')"
  using assms by (subst by_id_loop.simps) simp

lemma logged_replay:
  "logged (replay (answers rs)) (k, calls) req s = (Inr (rs k), (Suc k, calls @ [(req, s, Inr (rs k))]))"
  by (simp add: logged_def replay_def answers_def)

lemma by_id_loop_replay:
  assumes "n0 \<le> n" and "has_more (rs n) \<noteq> Some True"
      and "\<forall>k. n0 \<le> k \<and> k < n \<longrightarrow> has_more (rs k) = Some True"
  shows "by_id_loop (logged (replay (answers rs))) req (n0, calls) yielded =
           Some (None,
                 yielded @ concat (map (page_items \<circ> rs) [n0..<Suc n]),
                 foldl advance_id req (map rs [n0..<Suc n]),
                 (Suc n, calls @ map (\<lambda>k. (foldl advance_id req (map rs [n0..<k]), ''id'', Inr (rs k)))
                                   [n0..<Suc n]))"
  using assms
proof (induction "n - n0" arbitrary: n0 req calls yielded)
  case 0
  then have "n0 = n" by simp
  have "by_id_loop (logged (replay (answers rs))) req (n, calls) yielded
          = Some (None, yielded @ page_items (rs n), advance_id req (rs n),
                  (Suc n, calls @ [(req, ''id'', Inr (rs n))]))"
    using 0 by (intro by_id_loop_stops) (simp_all add: logged_replay)
  then show ?case
    unfolding \<open>n0 = n\<close> by simp
next
  case (Suc d)
  then have lt: "n0 < n" by simp
  have more: "has_more (rs n0) = Some True" using Suc.prems lt by simp
  have IH: "by_id_loop (logged (replay (answers rs))) (advance_id req (rs n0))
              (Suc n0, calls @ [(req, ''id'', Inr (rs n0))]) (yielded @ page_items (rs n0)) =
           Some (None,
                 (yielded @ page_items (rs n0)) @ concat (map (page_items \<circ> rs) [Suc n0..<Suc n]),
                 foldl advance_id (advance_id req (rs n0)) (map rs [Suc n0..<Suc n]),
                 (Suc n, (calls @ [(req, ''id'', Inr (rs n0))]) @
                    map (\<lambda>k. (foldl advance_id (advance_id req (rs n0)) (map rs [Suc n0..<k]), ''id'', Inr (rs k)))
                                   [Suc n0..<Suc n]))"
    using Suc.hyps(2) Suc.prems lt by (intro Suc.hyps(1)) auto
  have upt: "[n0..<Suc n] = n0 # [Suc n0..<Suc n]"
    using lt by (simp add: upt_conv_Cons)
  have calls_eq:
    "map (\<lambda>k. (foldl advance_id (advance_id req (rs n0)) (map rs [Suc n0..<k]), ''id'', Inr (rs k))) [Suc n0..<Suc n]
     = map (\<lambda>k. (foldl advance_id req (map rs [n0..<k]), ''id'', Inr (rs k))) [Suc n0..<Suc n]"
    by (rule map_cong) (auto simp: upt_conv_Cons)
  have step: "by_id_loop (logged (replay (answers rs))) req (n0, calls) yielded
           = by_id_loop (logged (replay (answers rs))) (advance_id req (rs n0))
               (Suc n0, calls @ [(req, ''id'', Inr (rs n0))]) (yielded @ page_items (rs n0))"
    by (rule by_id_loop_goes_on [where resp = "rs n0"]) (simp_all add: logged_replay more)
  show ?case
    unfolding step IH upt calls_eq
    by simp
qed

lemma by_id_loop_replay_diverges:
  assumes run: "by_id_loop fetcher req st yielded = Some y"
  shows "fetcher = logged (replay (answers rs)) \<longrightarrow> (\<forall>k\<ge>fst st. has_more (rs k) = Some True) \<longrightarrow> False"
proof (rule by_id_loop.raw_induct
         [where P = "\<lambda>fetcher req st yielded y.
                       fetcher = logged (replay (answers rs))
                       \<longrightarrow> (\<forall>k\<ge>fst st. has_more (rs k) = Some True) \<longrightarrow> False",
          OF _ run])
  fix loop :: "(nat \<times> call list) fetcher \<Rightarrow> search_request \<Rightarrow> nat \<times> call list \<Rightarrow> item list
                 \<Rightarrow> (exn option \<times> item list \<times> search_request \<times> nat \<times> call list) option"
    and fetcher req st yielded y
  assume IH: "\<And>fetcher req st yielded y. loop fetcher req st yielded = Some y \<Longrightarrow>
                fetcher = logged (replay (answers rs))
                \<longrightarrow> (\<forall>k\<ge>fst st. has_more (rs k) = Some True) \<longrightarrow> False"
    and body: "(case fetcher st req ''id'' of
                  (Inl e, f') \<Rightarrow> Some (Some e, yielded, req, f')
                | (Inr resp, f') \<Rightarrow>
                    (case by_id_page req yielded resp of
                       (req', yielded') \<Rightarrow>
                         if has_more resp \<noteq> Some True then Some (None, yielded', req', f')
                         else loop fetcher req' f' yielded')) = Some y"
  show "fetcher = logged (replay (answers rs))
          \<longrightarrow> (\<forall>k\<ge>fst st. has_more (rs k) = Some True) \<longrightarrow> False"
  proof (intro impI)
    assume F: "fetcher = logged (replay (answers rs))"
       and all: "\<forall>k\<ge>fst st. has_more (rs k) = Some True"
    obtain k calls where st: "st = (k, calls)" by (cases st)
    from all st have "has_more (rs k) = Some True" by simp
    with body F st have
      "loop fetcher (advance_id req (rs k)) (Suc k, calls @ [(req, ''id'', Inr (rs k))])
         (yielded @ page_items (rs k)) = Some y"
      by (simp add: logged_replay by_id_page_eq)
    from IH [OF this] F all st show False by simp
  qed
qed

lemma by_id_iter_replay:
  assumes "n0 < n" and "has_more (rs n) \<noteq> Some True"
      and "\<forall>k. n0 < k \<and> k < n \<longrightarrow> has_more (rs k) = Some True"
  shows "by_id_iter (logged (replay (answers rs))) req (Suc n0, calls) =
           Some (None, drained rs n0 n, foldl advance_id req (map rs [Suc n0..<Suc n]),
                 (Suc n, calls @ drain_calls rs req n0 n))"
  unfolding by_id_iter_def drained_def drain_calls_def
  using by_id_loop_replay [of "Suc n0" n rs req calls "[]"] assms by simp

lemma by_id_iter_replay_diverges:
  assumes "\<forall>k>n0. has_more (rs k) = Some True"
  shows "by_id_iter (logged (replay (answers rs))) req (Suc n0, calls) = None"
proof (cases "by_id_iter (logged (replay (answers rs))) req (Suc n0, calls)")
  case None
  then show ?thesis .
next
  case (Some y)
  then have "by_id_loop (logged (replay (answers rs))) req (Suc n0, calls) [] = Some y"
    by (simp add: by_id_iter_def)
  from by_id_loop_replay_diverges [OF this, of rs] assms show ?thesis by simp
qed

text \<open>
  C10. Let the fetcher answer the sub-cursor's calls with the responses \<open>rs n0\<close>,
  \<open>rs (n0 + 1)\<close>, ... in turn. If \<open>rs n\<close> is the first of them whose \<open>has_more\<close> is false or
  unset, the iteration returns after exactly that response: it has yielded the items of
  the responses \<open>n0\<close> to \<open>n\<close> in page order, each call was issued with \<open>id_gt\<close> set to the id
  of the last item of the latest non-empty page before it, and so is the request it ends
  with. If every response has \<open>has_more\<close> true, the iteration never returns.
\<close>

theorem by_id_iteration:
  "(n0 \<le> n \<and> has_more (rs n) \<noteq> Some True
      \<and> (\<forall>k. n0 \<le> k \<and> k < n \<longrightarrow> has_more (rs k) = Some True)
    \<longrightarrow> by_id_iter (logged (replay (answers rs))) req (n0, []) =
          Some (None,
                concat (map (page_items \<circ> rs) [n0..<Suc n]),
                foldl advance_id req (map rs [n0..<Suc n]),
                (Suc n, map (\<lambda>k. (foldl advance_id req (map rs [n0..<k]), ''id'', Inr (rs k)))
                          [n0..<Suc n])))
   \<and> ((\<forall>k\<ge>n0. has_more (rs k) = Some True)
    \<longrightarrow> by_id_iter (logged (replay (answers rs))) req (n0, []) = None)"
proof (intro conjI impI)
  assume "n0 \<le> n \<and> has_more (rs n) \<noteq> Some True
            \<and> (\<forall>k. n0 \<le> k \<and> k < n \<longrightarrow> has_more (rs k) = Some True)"
  then show "by_id_iter (logged (replay (answers rs))) req (n0, []) =
          Some (None,
                concat (map (page_items \<circ> rs) [n0..<Suc n]),
                foldl advance_id req (map rs [n0..<Suc n]),
                (Suc n, map (\<lambda>k. (foldl advance_id req (map rs [n0..<k]), ''id'', Inr (rs k)))
                          [n0..<Suc n]))"
    unfolding by_id_iter_def
    using by_id_loop_replay [of n0 n rs req "[]" "[]"] by simp
next
  assume all: "\<forall>k\<ge>n0. has_more (rs k) = Some True"
  show "by_id_iter (logged (replay (answers rs))) req (n0, []) = None"
  proof (cases "by_id_iter (logged (replay (answers rs))) req (n0, [])")
    case None
    then show ?thesis .
  next
    case (Some y)
    then have "by_id_loop (logged (replay (answers rs))) req (n0, []) [] = Some y"
      by (simp add: by_id_iter_def)
    from by_id_loop_replay_diverges [OF this, of rs] all show ?thesis by simp
  qed
qed

theorem by_id_iteration_witness:
  "by_id_iter (logged (replay (answers two_pages))) blank_request (0, []) =
     Some (None,
           [\<lparr>item_id = ''x4'', item_time = 5\<rparr>, \<lparr>item_id = ''x5'', item_time = 5\<rparr>,
            \<lparr>item_id = ''x6'', item_time = 5\<rparr>],
           blank_request\<lparr>id_gt := Some ''x6''\<rparr>,
           (2, [(blank_request, ''id'', Inr (two_pages 0)),
                (blank_request\<lparr>id_gt := Some ''x5''\<rparr>, ''id'', Inr (two_pages 1))]))"
  using by_id_iteration [of 0 "Suc 0" two_pages blank_request]
  by (simp add: two_pages_def page_items_def advance_id_def)

section \<open>Iteration of the cursor\<close>

text \<open>
  C9. When the first response of an iteration has no items (\<open>items\<close> is \<open>None\<close> or empty),
  the iteration returns at once: no event is yielded, and the cursor (request, previous
  response, address of the seen set) and the whole store are what they were at entry.
\<close>

theorem empty_poll_changes_nothing:
  assumes "fetcher f (request c) (time_field c) = (Inr resp, f1)"
      and "items resp = None \<or> items resp = Some []"
  shows "cursor_iter fetcher c h f = Some (None, [], c, h, f1)"
  unfolding cursor_iter_def
  apply (subst cursor_loop.simps)
  using assms by (auto simp: cursor_round_def)

theorem empty_poll_changes_nothing_witness:
  "cursor_iter (replay (script [page [] False])) fresh_cursor fresh_heap 0
   = Some (None, [], fresh_cursor, fresh_heap, 1)"
  using empty_poll_changes_nothing
          [of "replay (script [page [] False])" 0 fresh_cursor
              "\<lparr>items = Some [], has_more = Some False\<rparr>" 1 fresh_heap]
  by (simp add: replay_def script_def page_def)

subsection \<open>The two inner loops\<close>

lemma set_unseen: "item_id ` set (unseen S its) = item_id ` set its - S"
  by (induction its arbitrary: S) auto

lemma distinct_unseen: "distinct (map item_id (unseen S its))"
proof (induction its arbitrary: S)
  case Nil
  then show ?case by simp
next
  case (Cons i rest)
  have "item_id i \<notin> item_id ` set (unseen (insert (item_id i) S) rest)"
    by (simp add: set_unseen)
  with Cons show ?case by simp
qed

lemma subseq_unseen: "subseq (unseen S its) its"
  by (induction its arbitrary: S) auto

lemma page_loop_eq:
  "page_loop c h its =
     (map construct_event (unseen (cells h (seen_ids c)) its),
      c\<lparr>request := advance_gte (request c) (unseen (cells h (seen_ids c)) its)\<rparr>,
      h\<lparr>cells := (cells h)(seen_ids c := cells h (seen_ids c) \<union> item_id ` set its)\<rparr>)"
proof (induction its arbitrary: c h)
  case Nil
  then show ?case by (simp add: advance_gte_def)
next
  case (Cons i rest)
  show ?case
  proof (cases "item_id i \<in> cells h (seen_ids c)")
    case True
    then show ?thesis using Cons by (simp add: insert_absorb)
  next
    case False
    then show ?thesis using Cons
      by (auto simp: set_add_def advance_gte_def fun_eq_iff)
  qed
qed

lemma drain_loop_eq:
  "drain_loop c h its =
     (map construct_event (unseen (cells h (seen_ids c)) its),
      h\<lparr>cells := (cells h)(seen_ids c := cells h (seen_ids c) \<union> item_id ` set its)\<rparr>)"
proof (induction its arbitrary: h)
  case Nil
  then show ?case by simp
next
  case (Cons i rest)
  show ?case
  proof (cases "item_id i \<in> cells h (seen_ids c)")
    case True
    then show ?thesis using Cons by (simp add: insert_absorb)
  next
    case False
    then show ?thesis using Cons
      by (auto simp: set_add_def fun_eq_iff)
  qed
qed

lemma sorted_le_last:
  assumes "sorted (map item_time its)" and "i \<in> set its"
  shows "item_time i \<le> item_time (last its)"
  using assms
proof (induction its)
  case Nil
  then show ?case by simp
next
  case (Cons a rest)
  show ?case
  proof (cases "rest = []")
    case True
    then show ?thesis using Cons.prems by simp
  next
    case False
    then have "last rest \<in> set rest" by simp
    then show ?thesis using Cons False by auto
  qed
qed

lemma set_unseen_subset: "set (unseen S its) \<subseteq> set its"
  by (induction its arbitrary: S) auto

lemma same_time_page:
  assumes "sorted (map item_time its)" and "item_time (hd its) = item_time (last its)"
      and "i \<in> set its"
  shows "item_time i = item_time (last its)"
proof -
  from assms(3) have ne: "its \<noteq> []" by auto
  have "item_time (hd its) \<le> item_time i"
    using assms(1,3) ne by (cases its) auto
  moreover have "item_time i \<le> item_time (last its)"
    using sorted_le_last [OF assms(1,3)] .
  ultimately show ?thesis using assms(2) by simp
qed

lemma fixed_time_request_exact:
  assumes "sorted (map item_time its)" and "item_time (hd its) = item_time (last its)"
      and "unseen (cells h (seen_ids c)) its \<noteq> []"
  shows "T_gte (fixed_time_request c h its) = Some (item_time (last its))"
proof -
  let ?new = "unseen (cells h (seen_ids c)) its"
  have "last ?new \<in> set its"
    using assms(3) set_unseen_subset [of "cells h (seen_ids c)" its] by auto
  from same_time_page [OF assms(1,2) this] assms(3) show ?thesis
    by (simp add: fixed_time_request_def advance_gte_def)
qed

lemma card_ids: "distinct (map item_id its) \<Longrightarrow> card (item_id ` set its) = length its"
  using distinct_card [of "map item_id its"] by simp

lemmas scenario_defs =
  cursor_iter_def cursor_round_def by_id_iter_def by_id_page_def replay_def script_def page_def
  fresh_cursor_def fresh_heap_def new_cursor_def alloc_def attrs_post_init_def blank_request_def
  empty_heap_def set_add_def strip_seen_def construct_event_def DATETIME_MIN_def

subsection \<open>A page that shares one timestamp\<close>

lemma drain_round_replay:
  assumes "items (rs n0) = Some its" and "its \<noteq> []" and "has_more (rs n0) = Some True"
      and "item_time (hd its) = item_time (last its)"
      and "n0 < n" and "has_more (rs n) \<noteq> Some True"
      and "\<forall>k. n0 < k \<and> k < n \<longrightarrow> has_more (rs k) = Some True"
  shows "\<exists>c' h'.
           cursor_round (logged (replay (answers rs))) c h (n0, calls) yielded =
             Some (Again c' h'
                     (Suc n, calls @ (request c, time_field c, Inr (rs n0))
                                # drain_calls rs (fixed_time_request c h its) n0 n)
                     (yielded @ map construct_event (unseen (cells h (seen_ids c)) its)
                        @ map construct_event
                            (unseen (cells h (seen_ids c) \<union> item_id ` set its)
                               (drained rs n0 n))))
           \<and> request c' = (advance_gte (request c) (unseen (cells h (seen_ids c)) its))
                              \<lparr>T_gt := Some (item_time (last its))\<rparr>
           \<and> cells h' (seen_ids c') = item_id ` set its"
proof -
  have sub: "by_id_iter (logged (replay (answers rs))) (fixed_time_request c h its)
               (Suc n0, calls @ [(request c, time_field c, Inr (rs n0))]) =
             Some (None, drained rs n0 n,
                   foldl advance_id (fixed_time_request c h its) (map rs [Suc n0..<Suc n]),
                   (Suc n, (calls @ [(request c, time_field c, Inr (rs n0))])
                             @ drain_calls rs (fixed_time_request c h its) n0 n))"
    by (rule by_id_iter_replay [OF assms(5,6,7)])
  show ?thesis
    using assms(1-4) sub
    by (simp add: cursor_round_def logged_replay page_loop_eq drain_loop_eq strip_seen_def
          alloc_def fixed_time_request_def)
qed

lemma drain_round_replay_diverges:
  assumes "items (rs n0) = Some its" and "its \<noteq> []" and "has_more (rs n0) = Some True"
      and "item_time (hd its) = item_time (last its)"
      and "\<forall>k>n0. has_more (rs k) = Some True"
  shows "cursor_round (logged (replay (answers rs))) c h (n0, calls) yielded = None"
  using assms(1-4) by_id_iter_replay_diverges [OF assms(5)]
  by (simp add: cursor_round_def logged_replay page_loop_eq)

lemma drain_calls_window:
  "\<forall>call\<in>set (drain_calls rs req n0 n).
     T_gte (fst call) = T_gte req \<and> T_gt (fst call) = T_gt req \<and> T_lte (fst call) = T_lte req
     \<and> fst (snd call) = ''id''"
proof -
  have "T_gte (foldl advance_id req xs) = T_gte req \<and> T_gt (foldl advance_id req xs) = T_gt req
          \<and> T_lte (foldl advance_id req xs) = T_lte req" for xs
    by (induction xs arbitrary: req) (simp_all add: advance_id_def)
  then show ?thesis by (auto simp: drain_calls_def)
qed

text \<open>
  C2. Let the fetcher answer the calls with the responses \<open>rs n0\<close>, \<open>rs (n0 + 1)\<close>, ... in
  turn, and let \<open>rs n0\<close>, the response to the cursor's time-sorted call, be a non-empty page
  with \<open>has_more\<close> true whose first and last item have the same time \<open>max_time\<close>. Then the
  cursor hands the sub-cursor its request with \<open>T_lte = max_time\<close> (and \<open>T_gte = max_time\<close>
  too, when the page is sorted and held an unseen item). If \<open>rs n\<close> is the first later
  response whose \<open>has_more\<close> is false or unset, the sub-cursor fetches the responses
  \<open>n0 + 1\<close> to \<open>n\<close>, sorted by id, within the same time bounds and each after the last id of
  the page before; every item of these pages whose id was not seen yet is emitted, once
  and in that order, after the page's own unseen items; the pass ends with \<open>T_gt = max_time\<close>
  in the request and the ids of the page as the seen set. If no later response has
  \<open>has_more\<close> false or unset, the pass never ends. On scenario S2 the cursor emits
  \<open>x1, x2, x3, x4, x5, y1\<close> in that order; its three calls are the time-sorted one from
  \<open>DATETIME_MIN\<close>, the id-sorted one with \<open>T_gte = T_lte = 5\<close>, and the time-sorted one
  with \<open>T_gt = 5\<close>.
\<close>

theorem bucket_drain:
  "(items (rs n0) = Some its \<and> its \<noteq> [] \<and> has_more (rs n0) = Some True
      \<and> item_time (hd its) = item_time (last its)
    \<longrightarrow>
      (n0 < n \<and> has_more (rs n) \<noteq> Some True
         \<and> (\<forall>k. n0 < k \<and> k < n \<longrightarrow> has_more (rs k) = Some True)
       \<longrightarrow> (\<exists>c' h'.
              cursor_round (logged (replay (answers rs))) c h (n0, calls) yielded =
                Some (Again c' h'
                        (Suc n, calls @ (request c, time_field c, Inr (rs n0))
                                   # drain_calls rs (fixed_time_request c h its) n0 n)
                        (yielded @ map construct_event (unseen (cells h (seen_ids c)) its)
                           @ map construct_event
                               (unseen (cells h (seen_ids c) \<union> item_id ` set its)
                                  (drained rs n0 n))))
              \<and> request c' = (advance_gte (request c) (unseen (cells h (seen_ids c)) its))
                                 \<lparr>T_gt := Some (item_time (last its))\<rparr>
              \<and> cells h' (seen_ids c') = item_id ` set its))
      \<and> ((\<forall>k>n0. has_more (rs k) = Some True)
          \<longrightarrow> cursor_round (logged (replay (answers rs))) c h (n0, calls) yielded = None)
      \<and> T_lte (fixed_time_request c h its) = Some (item_time (last its))
      \<and> (sorted (map item_time its) \<and> unseen (cells h (seen_ids c)) its \<noteq> []
          \<longrightarrow> T_gte (fixed_time_request c h its) = Some (item_time (last its)))
      \<and> (\<forall>call\<in>set (drain_calls rs (fixed_time_request c h its) n0 n).
            T_gte (fst call) = T_gte (fixed_time_request c h its)
            \<and> T_gt (fst call) = T_gt (fixed_time_request c h its)
            \<and> T_lte (fst call) = T_lte (fixed_time_request c h its)
            \<and> fst (snd call) = ''id'')
      \<and> item_id ` set (unseen (cells h (seen_ids c) \<union> item_id ` set its) (drained rs n0 n))
          = item_id ` set (drained rs n0 n) - (cells h (seen_ids c) \<union> item_id ` set its)
      \<and> distinct (map item_id
                     (unseen (cells h (seen_ids c) \<union> item_id ` set its) (drained rs n0 n)))
      \<and> subseq (unseen (cells h (seen_ids c) \<union> item_id ` set its) (drained rs n0 n))
               (drained rs n0 n))
   \<and> map_option summary
       (cursor_iter (logged (replay (script bucket_overflow))) fresh_cursor fresh_heap (0, []))
     = Some (None, [''x1'', ''x2'', ''x3'', ''x4'', ''x5'', ''y1''], Some 5,
             [(Some 0, None, None, None, ''created''),
              (Some 5, None, Some 5, None, ''id''),
              (Some 5, Some 5, None, None, ''created'')])"
proof (intro conjI impI)
  assume page: "items (rs n0) = Some its \<and> its \<noteq> [] \<and> has_more (rs n0) = Some True
                  \<and> item_time (hd its) = item_time (last its)"
     and sub: "n0 < n \<and> has_more (rs n) \<noteq> Some True
                 \<and> (\<forall>k. n0 < k \<and> k < n \<longrightarrow> has_more (rs k) = Some True)"
  from page have p: "items (rs n0) = Some its" "its \<noteq> []" "has_more (rs n0) = Some True"
    "item_time (hd its) = item_time (last its)" by simp_all
  from sub have q: "n0 < n" "has_more (rs n) \<noteq> Some True"
    "\<forall>k. n0 < k \<and> k < n \<longrightarrow> has_more (rs k) = Some True" by simp_all
  show "\<exists>c' h'.
          cursor_round (logged (replay (answers rs))) c h (n0, calls) yielded =
            Some (Again c' h'
                    (Suc n, calls @ (request c, time_field c, Inr (rs n0))
                               # drain_calls rs (fixed_time_request c h its) n0 n)
                    (yielded @ map construct_event (unseen (cells h (seen_ids c)) its)
                       @ map construct_event
                           (unseen (cells h (seen_ids c) \<union> item_id ` set its)
                              (drained rs n0 n))))
          \<and> request c' = (advance_gte (request c) (unseen (cells h (seen_ids c)) its))
                             \<lparr>T_gt := Some (item_time (last its))\<rparr>
          \<and> cells h' (seen_ids c') = item_id ` set its"
    by (rule drain_round_replay [OF p q])
next
  assume page: "items (rs n0) = Some its \<and> its \<noteq> [] \<and> has_more (rs n0) = Some True
                  \<and> item_time (hd its) = item_time (last its)"
     and all: "\<forall>k>n0. has_more (rs k) = Some True"
  from page have p: "items (rs n0) = Some its" "its \<noteq> []" "has_more (rs n0) = Some True"
    "item_time (hd its) = item_time (last its)" by simp_all
  show "cursor_round (logged (replay (answers rs))) c h (n0, calls) yielded = None"
    by (rule drain_round_replay_diverges [OF p all])
next
  show "T_lte (fixed_time_request c h its) = Some (item_time (last its))"
    by (simp add: fixed_time_request_def)
next
  assume page: "items (rs n0) = Some its \<and> its \<noteq> [] \<and> has_more (rs n0) = Some True
                  \<and> item_time (hd its) = item_time (last its)"
     and new: "sorted (map item_time its) \<and> unseen (cells h (seen_ids c)) its \<noteq> []"
  then show "T_gte (fixed_time_request c h its) = Some (item_time (last its))"
    using fixed_time_request_exact [of its h c] by blast
next
  show "\<forall>call\<in>set (drain_calls rs (fixed_time_request c h its) n0 n).
          T_gte (fst call) = T_gte (fixed_time_request c h its)
          \<and> T_gt (fst call) = T_gt (fixed_time_request c h its)
          \<and> T_lte (fst call) = T_lte (fixed_time_request c h its)
          \<and> fst (snd call) = ''id''"
    by (rule drain_calls_window)
next
  show "item_id ` set (unseen (cells h (seen_ids c) \<union> item_id ` set its) (drained rs n0 n))
          = item_id ` set (drained rs n0 n) - (cells h (seen_ids c) \<union> item_id ` set its)"
    by (rule set_unseen)
next
  show "distinct (map item_id
                    (unseen (cells h (seen_ids c) \<union> item_id ` set its) (drained rs n0 n)))"
    by (rule distinct_unseen)
next
  show "subseq (unseen (cells h (seen_ids c) \<union> item_id ` set its) (drained rs n0 n))
          (drained rs n0 n)"
    by (rule subseq_unseen)
next
  show "map_option summary
       (cursor_iter (logged (replay (script bucket_overflow))) fresh_cursor fresh_heap (0, []))
     = Some (None, [''x1'', ''x2'', ''x3'', ''x4'', ''x5'', ''y1''], Some 5,
             [(Some 0, None, None, None, ''created''),
              (Some 5, None, Some 5, None, ''id''),
              (Some 5, Some 5, None, None, ''created'')])"
    by (simp add: scenario_defs cursor_loop.simps by_id_loop.simps logged_def
          bucket_overflow_def summary_def)
qed

theorem bucket_drain_witness:
  "\<exists>c' h' f' ys.
      cursor_round (logged (replay (answers drain_pages))) fresh_cursor fresh_heap (0, []) []
        = Some (Again c' h' f' ys)
      \<and> map (item_id \<circ> event_item) ys = [''x1'', ''x2'', ''x3'', ''x4'', ''x5'']
      \<and> map (\<lambda>(req, s, out). (T_gte req, T_lte req, id_gt req, s)) (snd f')
          = [(Some 0, None, None, ''created''),
             (Some 5, Some 5, None, ''id''),
             (Some 5, Some 5, Some ''x2'', ''id'')]
      \<and> T_gt (request c') = Some 5
      \<and> cells h' (seen_ids c') = {''x1'', ''x2'', ''x3''}"
proof -
  let ?its = "[\<lparr>item_id = ''x1'', item_time = 5\<rparr>, \<lparr>item_id = ''x2'', item_time = 5\<rparr>,
               \<lparr>item_id = ''x3'', item_time = 5\<rparr>]"
  let ?f = "(Suc 2, [] @ (request fresh_cursor, time_field fresh_cursor, Inr (drain_pages 0))
                       # drain_calls drain_pages
                           (fixed_time_request fresh_cursor fresh_heap ?its) 0 2)"
  let ?ys = "[] @ map construct_event (unseen (cells fresh_heap (seen_ids fresh_cursor)) ?its)
               @ map construct_event
                   (unseen (cells fresh_heap (seen_ids fresh_cursor) \<union> item_id ` set ?its)
                      (drained drain_pages 0 2))"
  have page: "items (drain_pages 0) = Some ?its \<and> ?its \<noteq> [] \<and> has_more (drain_pages 0) = Some True
                \<and> item_time (hd ?its) = item_time (last ?its)"
    by (simp add: drain_pages_def)
  have sub: "0 < (2 :: nat) \<and> has_more (drain_pages 2) \<noteq> Some True
               \<and> (\<forall>k. 0 < k \<and> k < 2 \<longrightarrow> has_more (drain_pages k) = Some True)"
    by (auto simp: drain_pages_def)
  note drain = bucket_drain
         [where rs = drain_pages and ?n0.0 = 0 and n = 2 and its = ?its and c = fresh_cursor
            and h = fresh_heap and calls = "[]" and yielded = "[]",
          THEN conjunct1, THEN mp, OF page, THEN conjunct1, THEN mp, OF sub]
  then obtain c' h' where
    all: "cursor_round (logged (replay (answers drain_pages))) fresh_cursor fresh_heap (0, []) [] =
              Some (Again c' h' ?f ?ys)
          \<and> request c' =
                (advance_gte (request fresh_cursor)
                   (unseen (cells fresh_heap (seen_ids fresh_cursor)) ?its))
                  \<lparr>T_gt := Some (item_time (last ?its))\<rparr>
          \<and> cells h' (seen_ids c') = item_id ` set ?its"
    by (elim exE)
  have seen0: "cells fresh_heap (seen_ids fresh_cursor) = {}"
    and req0: "request fresh_cursor = blank_request\<lparr>T_gte := Some 0\<rparr>"
    and tf0: "time_field fresh_cursor = ''created''"
    by (simp_all add: scenario_defs)
  have upt: "[Suc 0..<3] = [1, 2]" "[Suc 0..<Suc 2] = [1, 2]" "[Suc 0..<1] = []"
    "[Suc 0..<2] = [1]"
    by (simp_all add: upt_rec)
  have dr: "drained drain_pages 0 2 =
              [\<lparr>item_id = ''x1'', item_time = 5\<rparr>, \<lparr>item_id = ''x2'', item_time = 5\<rparr>,
               \<lparr>item_id = ''x3'', item_time = 5\<rparr>, \<lparr>item_id = ''x4'', item_time = 5\<rparr>,
               \<lparr>item_id = ''x5'', item_time = 5\<rparr>]"
    by (simp add: drained_def upt drain_pages_def page_items_def)
  have ys: "map (item_id \<circ> event_item) ?ys = [''x1'', ''x2'', ''x3'', ''x4'', ''x5'']"
    by (simp add: seen0 dr construct_event_def)
  have calls: "map (\<lambda>(req, s, out). (T_gte req, T_lte req, id_gt req, s)) (snd ?f)
          = [(Some 0, None, None, ''created''),
             (Some 5, Some 5, None, ''id''),
             (Some 5, Some 5, Some ''x2'', ''id'')]"
    by (simp add: seen0 req0 tf0 upt drain_calls_def fixed_time_request_def
          drain_pages_def page_items_def advance_id_def advance_gte_def blank_request_def)
  have gt: "T_gt (request c') = Some 5"
    using all by (simp add: seen0)
  have seen: "cells h' (seen_ids c') = {''x1'', ''x2'', ''x3''}"
    using all by auto
  from all have round: "cursor_round (logged (replay (answers drain_pages))) fresh_cursor fresh_heap (0, []) [] =
              Some (Again c' h' ?f ?ys)" by (rule conjunct1)
  show ?thesis
    by (intro exI [of _ c'] exI [of _ h'] exI [of _ ?f] exI [of _ ?ys] conjI round ys calls gt seen)
qed

subsection \<open>No id is emitted twice\<close>

lemma well_behaved_unfold:
  "well_behaved tm tf (req, sort_arg, out) =
     (case out of
        Inl e \<Rightarrow> True
      | Inr resp \<Rightarrow>
          (\<forall>i\<in>set (page_items resp). admits req i \<and> item_time i = tm (item_id i))
          \<and> (sort_arg = tf \<longrightarrow> sorted (map item_time (page_items resp))))"
  by (auto simp: well_behaved_def follows_contract_def same_times_def split: sum.splits)

lemma advance_gte_Cons:
  "advance_gte req (i # new) = advance_gte (req\<lparr>T_gte := Some (item_time i)\<rparr>) new"
  by (simp add: advance_gte_def)

lemma lower_ok_T_gte:
  "lower_ok (req\<lparr>T_gte := Some g\<rparr>) t = (g \<le> t \<and> (case T_gt req of None \<Rightarrow> True | Some g' \<Rightarrow> g' < t))"
  by (simp add: lower_ok_def)

lemma lower_ok_weaker:
  assumes "lower_ok req g" and "lower_ok (req\<lparr>T_gte := Some g\<rparr>) t"
  shows "lower_ok req t"
  using assms by (auto simp: lower_ok_def split: option.splits)

lemma frontier_inv_step:
  assumes inv: "frontier_inv tm E S req"
      and adm: "lower_ok req (tm x)"
      and new: "x \<notin> S"
  shows "x \<notin> E"
    and "frontier_inv tm (insert x E) (insert x S) (req\<lparr>T_gte := Some (tm x)\<rparr>)"
proof -
  show "x \<notin> E"
    using inv adm new unfolding frontier_inv_def by blast
  have sub: "insert x S \<subseteq> insert x E"
    using inv unfolding frontier_inv_def by blast
  have seen: "\<forall>y\<in>insert x S. \<forall>t. lower_ok (req\<lparr>T_gte := Some (tm x)\<rparr>) t \<longrightarrow> tm y \<le> t"
  proof (intro ballI allI impI)
    fix y t
    assume y: "y \<in> insert x S" and t: "lower_ok (req\<lparr>T_gte := Some (tm x)\<rparr>) t"
    show "tm y \<le> t"
    proof (cases "y = x")
      case True
      then show ?thesis using t by (simp add: lower_ok_T_gte)
    next
      case False
      then have "y \<in> S" using y by simp
      moreover have "lower_ok req t" using lower_ok_weaker [OF adm t] .
      ultimately show ?thesis using inv unfolding frontier_inv_def by blast
    qed
  qed
  have gone: "\<forall>y\<in>insert x E. y \<notin> insert x S \<longrightarrow> \<not> lower_ok (req\<lparr>T_gte := Some (tm x)\<rparr>) (tm y)"
  proof (intro ballI impI notI)
    fix y
    assume y: "y \<in> insert x E" "y \<notin> insert x S"
       and t: "lower_ok (req\<lparr>T_gte := Some (tm x)\<rparr>) (tm y)"
    from y have "y \<in> E" "y \<notin> S" by auto
    moreover have "lower_ok req (tm y)" using lower_ok_weaker [OF adm t] .
    ultimately show False using inv unfolding frontier_inv_def by blast
  qed
  show "frontier_inv tm (insert x E) (insert x S) (req\<lparr>T_gte := Some (tm x)\<rparr>)"
    unfolding frontier_inv_def using sub seen gone by blast
qed

lemma page_inv:
  assumes "frontier_inv tm E S req"
      and "\<forall>i\<in>set its. lower_ok req (item_time i) \<and> item_time i = tm (item_id i)"
      and "sorted (map item_time its)"
  shows "frontier_inv tm (E \<union> item_id ` set (unseen S its)) (S \<union> item_id ` set its)
           (advance_gte req (unseen S its))
         \<and> item_id ` set (unseen S its) \<inter> E = {}
         \<and> T_gt (advance_gte req (unseen S its)) = T_gt req
         \<and> (its \<noteq> [] \<longrightarrow> lower_ok (advance_gte req (unseen S its)) (item_time (last its)))
         \<and> (\<forall>g. T_gte req = Some g \<longrightarrow>
               (\<exists>g'. T_gte (advance_gte req (unseen S its)) = Some g' \<and> g \<le> g'))
         \<and> (\<forall>i\<in>set its. item_id i \<in> S \<or>
               (\<exists>g. T_gte (advance_gte req (unseen S its)) = Some g \<and> item_time i \<le> g))"
  using assms
proof (induction its arbitrary: E S req)
  case Nil
  then show ?case by (simp add: advance_gte_def)
next
  case (Cons i rest)
  have "i \<in> set (i # rest)" by simp
  with Cons.prems(2) have adm: "lower_ok req (item_time i)" and tmi: "item_time i = tm (item_id i)"
    by blast+
  have rest_adm: "lower_ok req (item_time j)" and rest_tm: "item_time j = tm (item_id j)"
    if "j \<in> set rest" for j
  proof -
    from that have "j \<in> set (i # rest)" by simp
    with Cons.prems(2) show "lower_ok req (item_time j)" and "item_time j = tm (item_id j)"
      by blast+
  qed
  have rest_ge: "\<And>j. j \<in> set rest \<Longrightarrow> item_time i \<le> item_time j"
    and rest_sorted: "sorted (map item_time rest)"
    using Cons.prems(3) by simp_all
  show ?case
  proof (cases "item_id i \<in> S")
    case True
    have pre: "\<forall>j\<in>set rest. lower_ok req (item_time j) \<and> item_time j = tm (item_id j)"
      using rest_adm rest_tm by blast
    note IH = Cons.IH [OF Cons.prems(1) pre rest_sorted]
    have un: "unseen S (i # rest) = unseen S rest"
      using True by simp
    have S: "S \<union> item_id ` set (i # rest) = S \<union> item_id ` set rest"
      using True by auto
    have G4: "lower_ok (advance_gte req (unseen S rest)) (item_time (last (i # rest)))"
    proof (cases "rest = []")
      case True
      then show ?thesis using adm by (simp add: advance_gte_def)
    next
      case False
      then show ?thesis using IH by simp
    qed
    have G6: "\<forall>j\<in>set (i # rest). item_id j \<in> S \<or>
               (\<exists>g. T_gte (advance_gte req (unseen S rest)) = Some g \<and> item_time j \<le> g)"
      using True IH by simp
    show ?thesis
      unfolding un S using IH G4 G6 by blast
  next
    case False
    let ?req1 = "req\<lparr>T_gte := Some (item_time i)\<rparr>"
    let ?S1 = "insert (item_id i) S"
    let ?E1 = "insert (item_id i) E"
    let ?new = "unseen ?S1 rest"
    let ?req' = "advance_gte ?req1 ?new"
    have adm': "lower_ok req (tm (item_id i))" using adm tmi by simp
    have notE: "item_id i \<notin> E"
      using frontier_inv_step(1) [OF Cons.prems(1) adm' False] .
    have inv1: "frontier_inv tm ?E1 ?S1 ?req1"
      using frontier_inv_step(2) [OF Cons.prems(1) adm' False] tmi by simp
    have pre: "\<forall>j\<in>set rest. lower_ok ?req1 (item_time j) \<and> item_time j = tm (item_id j)"
    proof
      fix j assume j: "j \<in> set rest"
      have "lower_ok ?req1 (item_time j)"
        using rest_adm [OF j] rest_ge [OF j] by (simp add: lower_ok_def)
      then show "lower_ok ?req1 (item_time j) \<and> item_time j = tm (item_id j)"
        using rest_tm [OF j] by simp
    qed
    note IH = Cons.IH [OF inv1 pre rest_sorted]
    have un: "unseen S (i # rest) = i # ?new"
      using False by simp
    have E: "E \<union> item_id ` set (i # ?new) = ?E1 \<union> item_id ` set ?new"
      and S: "S \<union> item_id ` set (i # rest) = ?S1 \<union> item_id ` set rest"
      by auto
    from IH have mono: "\<exists>g'. T_gte ?req' = Some g' \<and> item_time i \<le> g'"
      by simp
    have G2: "item_id ` set (i # ?new) \<inter> E = {}"
      using notE IH by auto
    have G3: "T_gt ?req' = T_gt req"
      using IH by simp
    have G4: "lower_ok ?req' (item_time (last (i # rest)))"
    proof (cases "rest = []")
      case True
      then show ?thesis using adm by (simp add: advance_gte_def lower_ok_def)
    next
      case False
      then show ?thesis using IH by simp
    qed
    have G5: "\<forall>g. T_gte req = Some g \<longrightarrow> (\<exists>g'. T_gte ?req' = Some g' \<and> g \<le> g')"
    proof (intro allI impI)
      fix g assume "T_gte req = Some g"
      then have "g \<le> item_time i" using adm by (simp add: lower_ok_def)
      then show "\<exists>g'. T_gte ?req' = Some g' \<and> g \<le> g'"
        using mono by force
    qed
    have G6: "\<forall>j\<in>set (i # rest). item_id j \<in> S \<or>
               (\<exists>g. T_gte ?req' = Some g \<and> item_time j \<le> g)"
    proof
      fix j assume j: "j \<in> set (i # rest)"
      show "item_id j \<in> S \<or> (\<exists>g. T_gte ?req' = Some g \<and> item_time j \<le> g)"
      proof (cases "item_id j = item_id i")
        case True
        have "item_time j = item_time i"
        proof (cases "j = i")
          case True then show ?thesis by simp
        next
          case False
          then have "j \<in> set rest" using j by simp
          from rest_tm [OF this] tmi True show ?thesis by simp
        qed
        then show ?thesis using mono by simp
      next
        case False
        then have "j \<in> set rest" using j by auto
        with IH False show ?thesis by auto
      qed
    qed
    show ?thesis
      unfolding un advance_gte_Cons E S
      using IH G2 G3 G4 G5 G6 by blast
  qed
qed


lemma strip_inv_nodrain:
  assumes inv: "frontier_inv tm E S req"
      and page: "\<forall>i\<in>set its. lower_ok req (item_time i) \<and> item_time i = tm (item_id i)"
      and srt: "sorted (map item_time its)"
      and ne: "its \<noteq> []"
      and diff: "item_time (hd its) \<noteq> item_time (last its)"
  shows "frontier_inv tm (E \<union> item_id ` set (unseen S its)) (item_id ` set its)
           (advance_gte req (unseen S its))"
proof -
  let ?E' = "E \<union> item_id ` set (unseen S its)"
  let ?S' = "S \<union> item_id ` set its"
  let ?req' = "advance_gte req (unseen S its)"
  note P = page_inv [OF inv page srt]
  from P have P1: "frontier_inv tm ?E' ?S' ?req'" by blast
  from P have P6: "\<forall>i\<in>set its. item_id i \<in> S \<or>
                     (\<exists>g. T_gte ?req' = Some g \<and> item_time i \<le> g)" by blast
  have hd_in: "hd its \<in> set its" and last_in: "last its \<in> set its"
    using ne by simp_all
  have lt: "item_time (hd its) < item_time (last its)"
    using sorted_le_last [OF srt hd_in] diff by simp
  have hd_adm: "lower_ok req (item_time (hd its))"
    using page hd_in by blast
  have old: "tm x \<le> item_time (hd its)" if "x \<in> S" for x
    using inv that hd_adm unfolding frontier_inv_def by blast
  have last_tm: "item_time (last its) = tm (item_id (last its))"
    using page last_in by blast
  have "item_id (last its) \<notin> S"
  proof
    assume "item_id (last its) \<in> S"
    from old [OF this] last_tm lt show False by simp
  qed
  with P6 last_in obtain g where g: "T_gte ?req' = Some g" "item_time (last its) \<le> g"
    by blast
  have sub: "item_id ` set its \<subseteq> ?E'"
    using P1 unfolding frontier_inv_def by blast
  have seen: "\<forall>x\<in>item_id ` set its. \<forall>t. lower_ok ?req' t \<longrightarrow> tm x \<le> t"
    using P1 unfolding frontier_inv_def by blast
  have gone: "\<forall>x\<in>?E'. x \<notin> item_id ` set its \<longrightarrow> \<not> lower_ok ?req' (tm x)"
  proof (intro ballI impI)
    fix x assume x: "x \<in> ?E'" "x \<notin> item_id ` set its"
    show "\<not> lower_ok ?req' (tm x)"
    proof (cases "x \<in> S")
      case True
      from old [OF True] lt g have "tm x < g" by simp
      then show ?thesis using g(1) by (simp add: lower_ok_def)
    next
      case False
      then have "x \<notin> ?S'" using x(2) by simp
      then show ?thesis using P1 x(1) unfolding frontier_inv_def by blast
    qed
  qed
  show ?thesis
    unfolding frontier_inv_def using sub seen gone by blast
qed

lemma lower_ok_T_lte [simp]: "lower_ok (req\<lparr>T_lte := v\<rparr>) t = lower_ok req t"
  by (simp add: lower_ok_def)

lemma strip_inv_drain:
  assumes inv: "frontier_inv tm E S req"
      and page: "\<forall>i\<in>set its. lower_ok req (item_time i) \<and> item_time i = tm (item_id i)"
      and srt: "sorted (map item_time its)"
      and ne: "its \<noteq> []"
      and same: "item_time (hd its) = item_time (last its)"
      and drained: "\<forall>y\<in>set ditems.
                      admits ((advance_gte req (unseen S its))\<lparr>T_lte := Some (item_time (last its))\<rparr>) y
                      \<and> item_time y = tm (item_id y)"
  shows "frontier_inv tm
           (E \<union> item_id ` set (unseen S its)
              \<union> item_id ` set (unseen (S \<union> item_id ` set its) ditems))
           (item_id ` set its)
           ((advance_gte req (unseen S its))\<lparr>T_gt := Some (item_time (last its))\<rparr>)"
    and "item_id ` set (unseen (S \<union> item_id ` set its) ditems)
           \<inter> (E \<union> item_id ` set (unseen S its)) = {}"
proof -
  let ?E' = "E \<union> item_id ` set (unseen S its)"
  let ?S' = "S \<union> item_id ` set its"
  let ?req' = "advance_gte req (unseen S its)"
  let ?max = "item_time (last its)"
  let ?new2 = "unseen ?S' ditems"
  let ?req'' = "?req'\<lparr>T_gt := Some ?max\<rparr>"
  note P = page_inv [OF inv page srt]
  from P have P1: "frontier_inv tm ?E' ?S' ?req'" by blast
  from P ne have P4: "lower_ok ?req' ?max" by blast
  have hd_in: "hd its \<in> set its" using ne by simp
  have hd_adm: "lower_ok req (item_time (hd its))"
    using page hd_in by blast
  have old: "tm x \<le> ?max" if "x \<in> S" for x
    using inv that hd_adm same unfolding frontier_inv_def by force
  have on_page: "tm x \<le> ?max" if "x \<in> item_id ` set its" for x
  proof -
    from that obtain i where i: "i \<in> set its" "x = item_id i" by blast
    from page i have "item_time i = tm x" by simp
    with sorted_le_last [OF srt i(1)] show ?thesis by simp
  qed
  have dr: "lower_ok ?req' (tm x) \<and> tm x \<le> ?max" if "x \<in> item_id ` set ditems" for x
  proof -
    from that obtain y where y: "y \<in> set ditems" "x = item_id y" by blast
    from drained y have "admits (?req'\<lparr>T_lte := Some ?max\<rparr>) y" "item_time y = tm x" by simp_all
    then show ?thesis by (simp add: admits_def)
  qed
  have stronger: "lower_ok ?req' t" if "lower_ok ?req'' t" for t
    using that P4 by (auto simp: lower_ok_def split: option.splits)
  have past: "\<not> lower_ok ?req'' t" if "t \<le> ?max" for t
    using that by (simp add: lower_ok_def)
  show disj: "item_id ` set ?new2 \<inter> ?E' = {}"
  proof (rule ccontr)
    assume "item_id ` set ?new2 \<inter> ?E' \<noteq> {}"
    then obtain x where x: "x \<in> item_id ` set ?new2" "x \<in> ?E'" by blast
    from x(1) have "x \<in> item_id ` set ditems" "x \<notin> ?S'"
      by (simp_all add: set_unseen)
    with dr P1 x(2) show False unfolding frontier_inv_def by blast
  qed
  have sub: "item_id ` set its \<subseteq> ?E' \<union> item_id ` set ?new2"
    using P1 unfolding frontier_inv_def by blast
  have seen: "\<forall>x\<in>item_id ` set its. \<forall>t. lower_ok ?req'' t \<longrightarrow> tm x \<le> t"
  proof (intro ballI allI impI)
    fix x t assume "x \<in> item_id ` set its" "lower_ok ?req'' t"
    then have "tm x \<le> ?max" "?max < t" using on_page by (simp_all add: lower_ok_def)
    then show "tm x \<le> t" by simp
  qed
  have gone: "\<forall>x\<in>?E' \<union> item_id ` set ?new2. x \<notin> item_id ` set its \<longrightarrow> \<not> lower_ok ?req'' (tm x)"
  proof (intro ballI impI)
    fix x assume x: "x \<in> ?E' \<union> item_id ` set ?new2" "x \<notin> item_id ` set its"
    consider "x \<in> item_id ` set ?new2" | "x \<in> S" | "x \<in> ?E'" "x \<notin> ?S'"
      using x by blast
    then show "\<not> lower_ok ?req'' (tm x)"
    proof cases
      case 1
      then have "x \<in> item_id ` set ditems" by (simp add: set_unseen)
      from dr [OF this] past show ?thesis by blast
    next
      case 2
      from old [OF this] past show ?thesis by blast
    next
      case 3
      then have "\<not> lower_ok ?req' (tm x)" using P1 unfolding frontier_inv_def by blast
      then show ?thesis using stronger by blast
    qed
  qed
  show "frontier_inv tm (?E' \<union> item_id ` set ?new2) (item_id ` set its) ?req''"
    unfolding frontier_inv_def using sub seen gone by blast
qed

lemma ids_construct_event [simp]:
  "map (item_id \<circ> event_item) (map construct_event xs) = map item_id xs"
  by (simp add: construct_event_def)

lemma admits_advance_id [simp]: "admits (advance_id req resp) y = admits req y"
  by (simp add: admits_def advance_id_def lower_ok_def)

lemma by_id_loop_inv:
  assumes bc: "\<And>s req k out s'. F s req k = (out, s') \<Longrightarrow> Good s'
                 \<Longrightarrow> Good s \<and> well_behaved tm tf (req, k, out)"
      and run: "by_id_loop fetcher breq f acc = Some res"
  shows "fetcher = F \<longrightarrow> Good (snd (snd (snd res)))
           \<longrightarrow> Good f
               \<and> (\<forall>y\<in>set (fst (snd res)).
                     y \<in> set acc \<or> (admits breq y \<and> item_time y = tm (item_id y)))"
proof (rule by_id_loop.raw_induct
         [where P = "\<lambda>fetcher breq f acc res.
                       fetcher = F \<longrightarrow> Good (snd (snd (snd res)))
                       \<longrightarrow> Good f
                           \<and> (\<forall>y\<in>set (fst (snd res)).
                                 y \<in> set acc \<or> (admits breq y \<and> item_time y = tm (item_id y)))",
          OF _ run])
  fix loop :: "'a fetcher \<Rightarrow> search_request \<Rightarrow> 'a \<Rightarrow> item list
                 \<Rightarrow> (exn option \<times> item list \<times> search_request \<times> 'a) option"
    and fetcher breq f acc res
  assume IH: "\<And>fetcher breq f acc res. loop fetcher breq f acc = Some res \<Longrightarrow>
                fetcher = F \<longrightarrow> Good (snd (snd (snd res)))
                \<longrightarrow> Good f
                    \<and> (\<forall>y\<in>set (fst (snd res)).
                          y \<in> set acc \<or> (admits breq y \<and> item_time y = tm (item_id y)))"
    and body: "(case fetcher f breq ''id'' of
                  (Inl e, f') \<Rightarrow> Some (Some e, acc, breq, f')
                | (Inr resp, f') \<Rightarrow>
                    (case by_id_page breq acc resp of
                       (req', yielded') \<Rightarrow>
                         if has_more resp \<noteq> Some True then Some (None, yielded', req', f')
                         else loop fetcher req' f' yielded')) = Some res"
  show "fetcher = F \<longrightarrow> Good (snd (snd (snd res)))
          \<longrightarrow> Good f
              \<and> (\<forall>y\<in>set (fst (snd res)).
                    y \<in> set acc \<or> (admits breq y \<and> item_time y = tm (item_id y)))"
  proof (intro impI)
    assume F: "fetcher = F" and good: "Good (snd (snd (snd res)))"
    obtain out f1 where fetched: "F f breq ''id'' = (out, f1)"
      by (cases "F f breq ''id''")
    show "Good f \<and> (\<forall>y\<in>set (fst (snd res)).
                    y \<in> set acc \<or> (admits breq y \<and> item_time y = tm (item_id y)))"
    proof (cases out)
      case (Inl e)
      with body F fetched have "res = (Some e, acc, breq, f1)" by simp
      with good bc [OF fetched] show ?thesis by simp
    next
      case (Inr resp)
      have page: "\<forall>y\<in>set (page_items resp). admits breq y \<and> item_time y = tm (item_id y)"
        if "Good f1"
        using bc [OF fetched that] Inr by (simp add: well_behaved_unfold)
      show ?thesis
      proof (cases "has_more resp = Some True")
        case False
        with body F fetched Inr
        have res: "res = (None, acc @ page_items resp, advance_id breq resp, f1)"
          by (simp add: by_id_page_eq)
        with good have g1: "Good f1" by simp
        from page [OF g1] bc [OF fetched g1] res show ?thesis by auto
      next
        case True
        with body F fetched Inr
        have "loop F (advance_id breq resp) f1 (acc @ page_items resp) = Some res"
          by (simp add: by_id_page_eq)
        from IH [OF this] good
        have g1: "Good f1"
          and rest: "\<forall>y\<in>set (fst (snd res)).
                       y \<in> set (acc @ page_items resp)
                       \<or> (admits (advance_id breq resp) y \<and> item_time y = tm (item_id y))"
          by simp_all
        from page [OF g1] bc [OF fetched g1] rest show ?thesis by auto
      qed
    qed
  qed
qed

lemma distinct_ids_append:
  assumes "distinct xs" and "distinct (map item_id new)" and "item_id ` set new \<inter> set xs = {}"
  shows "distinct (xs @ map item_id new)"
  using assms by auto

lemma ids_append:
  "map (item_id \<circ> event_item) (ys @ map construct_event new)
     = map (item_id \<circ> event_item) ys @ map item_id new"
  by (simp add: construct_event_def)

lemma set_ids_append:
  "set (map (item_id \<circ> event_item) (ys @ map construct_event new))
     = set (map (item_id \<circ> event_item) ys) \<union> item_id ` set new"
  unfolding ids_append by simp

lemma cursor_inv_page:
  assumes inv: "cursor_inv tm c h ys"
      and page: "\<forall>i\<in>set its. lower_ok (request c) (item_time i) \<and> item_time i = tm (item_id i)"
      and srt: "sorted (map item_time its)"
      and c2: "request c2 = advance_gte (request c) (unseen (cells h (seen_ids c)) its)"
      and h2: "cells h2 (seen_ids c2) = cells h (seen_ids c) \<union> item_id ` set its"
  shows "cursor_inv tm c2 h2 (ys @ map construct_event (unseen (cells h (seen_ids c)) its))"
proof -
  from inv have fi: "frontier_inv tm (set (map (item_id \<circ> event_item) ys))
                       (cells h (seen_ids c)) (request c)"
    and d: "distinct (map (item_id \<circ> event_item) ys)"
    by (simp_all add: cursor_inv_def)
  note P = page_inv [OF fi page srt]
  from P have "item_id ` set (unseen (cells h (seen_ids c)) its)
                 \<inter> set (map (item_id \<circ> event_item) ys) = {}" by blast
  then have "distinct (map (item_id \<circ> event_item)
                         (ys @ map construct_event (unseen (cells h (seen_ids c)) its)))"
    unfolding ids_append
    by (intro distinct_ids_append d distinct_unseen)
  moreover from P have "frontier_inv tm
         (set (map (item_id \<circ> event_item)
                 (ys @ map construct_event (unseen (cells h (seen_ids c)) its))))
         (cells h2 (seen_ids c2)) (request c2)"
    unfolding c2 h2 set_ids_append by blast
  ultimately show ?thesis unfolding cursor_inv_def by blast
qed

lemma cursor_inv_nodrain:
  assumes inv: "cursor_inv tm c h ys"
      and page: "\<forall>i\<in>set its. lower_ok (request c) (item_time i) \<and> item_time i = tm (item_id i)"
      and srt: "sorted (map item_time its)"
      and ne: "its \<noteq> []"
      and diff: "item_time (hd its) \<noteq> item_time (last its)"
      and c4: "request c4 = advance_gte (request c) (unseen (cells h (seen_ids c)) its)"
      and h4: "cells h4 (seen_ids c4) = item_id ` set its"
  shows "cursor_inv tm c4 h4 (ys @ map construct_event (unseen (cells h (seen_ids c)) its))"
proof -
  from inv have fi: "frontier_inv tm (set (map (item_id \<circ> event_item) ys))
                       (cells h (seen_ids c)) (request c)"
    and d: "distinct (map (item_id \<circ> event_item) ys)"
    by (simp_all add: cursor_inv_def)
  note P = page_inv [OF fi page srt]
  from P have "item_id ` set (unseen (cells h (seen_ids c)) its)
                 \<inter> set (map (item_id \<circ> event_item) ys) = {}" by blast
  then have "distinct (map (item_id \<circ> event_item)
                         (ys @ map construct_event (unseen (cells h (seen_ids c)) its)))"
    unfolding ids_append
    by (intro distinct_ids_append d distinct_unseen)
  moreover from strip_inv_nodrain [OF fi page srt ne diff]
  have "frontier_inv tm
         (set (map (item_id \<circ> event_item)
                 (ys @ map construct_event (unseen (cells h (seen_ids c)) its))))
         (cells h4 (seen_ids c4)) (request c4)"
    unfolding c4 h4 set_ids_append .
  ultimately show ?thesis unfolding cursor_inv_def by blast
qed

lemma cursor_inv_drain:
  assumes inv: "cursor_inv tm c h ys"
      and page: "\<forall>i\<in>set its. lower_ok (request c) (item_time i) \<and> item_time i = tm (item_id i)"
      and srt: "sorted (map item_time its)"
      and ne: "its \<noteq> []"
      and same: "item_time (hd its) = item_time (last its)"
      and drained: "\<forall>y\<in>set ditems.
                      admits ((advance_gte (request c) (unseen (cells h (seen_ids c)) its))
                                \<lparr>T_lte := Some (item_time (last its))\<rparr>) y
                      \<and> item_time y = tm (item_id y)"
      and c4: "request c4 = (advance_gte (request c) (unseen (cells h (seen_ids c)) its))
                              \<lparr>T_gt := Some (item_time (last its))\<rparr>"
      and h4: "cells h4 (seen_ids c4) = item_id ` set its"
  shows "cursor_inv tm c4 h4
           (ys @ map construct_event (unseen (cells h (seen_ids c)) its)
               @ map construct_event
                   (unseen (cells h (seen_ids c) \<union> item_id ` set its) ditems))"
proof -
  let ?S = "cells h (seen_ids c)"
  let ?new = "unseen ?S its"
  let ?new2 = "unseen (?S \<union> item_id ` set its) ditems"
  from inv have fi: "frontier_inv tm (set (map (item_id \<circ> event_item) ys)) ?S (request c)"
    and d: "distinct (map (item_id \<circ> event_item) ys)"
    by (simp_all add: cursor_inv_def)
  note P = page_inv [OF fi page srt]
  from P have d1: "item_id ` set ?new \<inter> set (map (item_id \<circ> event_item) ys) = {}" by blast
  note D = strip_inv_drain [OF fi page srt ne same drained]
  from D(2) have d2: "item_id ` set ?new2 \<inter> (set (map (item_id \<circ> event_item) ys) \<union> item_id ` set ?new) = {}" .
  have d12: "distinct (map (item_id \<circ> event_item) (ys @ map construct_event ?new))"
    unfolding ids_append by (intro distinct_ids_append d distinct_unseen d1)
  have "distinct (map (item_id \<circ> event_item)
                    ((ys @ map construct_event ?new) @ map construct_event ?new2))"
    unfolding ids_append [of "ys @ map construct_event ?new"]
  proof (intro distinct_ids_append d12 distinct_unseen)
    show "item_id ` set ?new2 \<inter> set (map (item_id \<circ> event_item) (ys @ map construct_event ?new)) = {}"
      unfolding set_ids_append using d2 .
  qed
  then have "distinct (map (item_id \<circ> event_item)
                    (ys @ map construct_event ?new @ map construct_event ?new2))"
    by (simp only: append_assoc)
  moreover from D(1)
  have "frontier_inv tm
         (set (map (item_id \<circ> event_item)
                 (ys @ map construct_event ?new @ map construct_event ?new2)))
         (cells h4 (seen_ids c4)) (request c4)"
    unfolding c4 h4 append_assoc [symmetric] set_ids_append .
  ultimately show ?thesis unfolding cursor_inv_def by blast
qed

lemma well_behaved_page:
  assumes "well_behaved tm tf (req, tf, Inr resp)" and "items resp = Some its"
  shows "\<forall>i\<in>set its. lower_ok req (item_time i) \<and> item_time i = tm (item_id i)"
    and "sorted (map item_time its)"
  using assms unfolding well_behaved_unfold page_items_def admits_def by auto

lemma cursor_round_inv:
  assumes bc: "\<And>s req k out s'. F s req k = (out, s') \<Longrightarrow> Good s'
                 \<Longrightarrow> Good s \<and> well_behaved tm tf (req, k, out)"
      and tf: "time_field c = tf"
      and round: "cursor_round F c h f ys = Some r"
  shows "case r of
           Again c' h' f' ys' \<Rightarrow>
             Good f' \<longrightarrow>
               Good f \<and> time_field c' = tf
               \<and> (cursor_inv tm c h ys \<longrightarrow> cursor_inv tm c' h' ys')
         | Return res \<Rightarrow>
             fst res = None \<longrightarrow> Good (snd (snd (snd (snd res)))) \<longrightarrow>
               Good f \<and> time_field (fst (snd (snd res))) = tf
               \<and> (cursor_inv tm c h ys
                    \<longrightarrow> cursor_inv tm (fst (snd (snd res))) (fst (snd (snd (snd res))))
                          (fst (snd res)))"
proof -
  obtain out f1 where fetched: "F f (request c) tf = (out, f1)"
    by (cases "F f (request c) tf")
  note wb = bc [OF fetched]
  let ?S = "cells h (seen_ids c)"
  show ?thesis
  proof (cases out)
    case (Inl e)
    with round fetched tf have "r = Return (Some e, ys, c, h, f1)"
      by (simp add: cursor_round_def)
    then show ?thesis by simp
  next
    case (Inr resp)
    show ?thesis
    proof (cases "items resp = None \<or> items resp = Some []")
      case True
      with round fetched tf Inr have "r = Return (None, ys, c, h, f1)"
        by (auto simp: cursor_round_def)
      then show ?thesis using wb tf by simp
    next
      case False
      then obtain its where its: "items resp = Some its" "its \<noteq> []" by auto
      let ?new = "unseen ?S its"
      let ?c2 = "c\<lparr>prev_response := Some resp, request := advance_gte (request c) ?new\<rparr>"
      let ?h2 = "h\<lparr>cells := (cells h)(seen_ids c := ?S \<union> item_id ` set its)\<rparr>"
      have pl: "page_loop (c\<lparr>prev_response := Some resp\<rparr>) h its
                  = (map construct_event ?new, ?c2, ?h2)"
        by (simp add: page_loop_eq)
      have page: "\<forall>i\<in>set its. lower_ok (request c) (item_time i) \<and> item_time i = tm (item_id i)"
          and srt: "sorted (map item_time its)"
        if "Good f1"
        using well_behaved_page [OF _ its(1)] wb [OF that] Inr by blast+
      show ?thesis
      proof (cases "has_more resp = Some True")
        case False
        with round fetched tf Inr its pl
        have r: "r = Return (None, ys @ map construct_event ?new, ?c2, ?h2, f1)"
          by (simp add: cursor_round_def)
        have "cursor_inv tm ?c2 ?h2 (ys @ map construct_event ?new)"
          if "Good f1" "cursor_inv tm c h ys"
          by (rule cursor_inv_page [OF that(2) page [OF that(1)] srt [OF that(1)]]) simp_all
        then show ?thesis using r wb tf by simp
      next
        case True
        note more = this
        show ?thesis
        proof (cases "item_time (hd its) = item_time (last its)")
          case False
          let ?c4 = "?c2\<lparr>seen_ids := next_free ?h2\<rparr>"
          let ?h4 = "?h2\<lparr>cells := (cells ?h2)(next_free ?h2 := item_id ` set its),
                        next_free := Suc (next_free ?h2)\<rparr>"
          from round fetched tf Inr its pl more False
          have r: "r = Again ?c4 ?h4 f1 (ys @ map construct_event ?new)"
            by (simp add: cursor_round_def strip_seen_def alloc_def)
          have "cursor_inv tm ?c4 ?h4 (ys @ map construct_event ?new)"
            if "Good f1" "cursor_inv tm c h ys"
            by (rule cursor_inv_nodrain
                       [OF that(2) page [OF that(1)] srt [OF that(1)] its(2) False]) simp_all
          then show ?thesis using r wb tf by simp
        next
          case True
          let ?fixed = "(advance_gte (request c) ?new)\<lparr>T_lte := Some (item_time (last its))\<rparr>"
          from round fetched tf Inr its pl more True
          obtain sub where sub: "by_id_iter F ?fixed f1 = Some sub"
            by (auto simp: cursor_round_def split: option.splits)
          obtain err ditems breq f2 where sub_eq: "sub = (err, ditems, breq, f2)"
            by (cases sub)
          let ?new2 = "unseen (?S \<union> item_id ` set its) ditems"
          let ?h3 = "?h2\<lparr>cells := (cells ?h2)(seen_ids c := ?S \<union> item_id ` set its \<union> item_id ` set ditems)\<rparr>"
          have dl: "drain_loop ?c2 ?h2 ditems = (map construct_event ?new2, ?h3)"
            by (simp add: drain_loop_eq)
          show ?thesis
          proof (cases err)
            case (Some e)
            with round fetched tf Inr its pl more True sub sub_eq dl
            have "\<exists>res. r = Return res \<and> fst res = Some e"
              by (auto simp: cursor_round_def)
            then show ?thesis by auto
          next
            case None
            let ?c4 = "?c2\<lparr>request := (advance_gte (request c) ?new)\<lparr>T_gt := Some (item_time (last its))\<rparr>,
                            seen_ids := next_free ?h3\<rparr>"
            let ?h4 = "?h3\<lparr>cells := (cells ?h3)(next_free ?h3 := item_id ` set its),
                          next_free := Suc (next_free ?h3)\<rparr>"
            from round fetched tf Inr its pl more True sub sub_eq dl None
            have r: "r = Again ?c4 ?h4 f2 (ys @ map construct_event ?new @ map construct_event ?new2)"
              by (simp add: cursor_round_def strip_seen_def alloc_def)
            from sub sub_eq have run: "by_id_loop F ?fixed f1 [] = Some (err, ditems, breq, f2)"
              by (simp add: by_id_iter_def)
            have sub_inv: "Good f1 \<and> (\<forall>y\<in>set ditems. admits ?fixed y \<and> item_time y = tm (item_id y))"
              if "Good f2"
              using by_id_loop_inv [where F = F and Good = Good, OF bc run] that by simp
            have "cursor_inv tm ?c4 ?h4 (ys @ map construct_event ?new @ map construct_event ?new2)"
              if "Good f2" "cursor_inv tm c h ys"
            proof -
              from sub_inv [OF that(1)] have g1: "Good f1"
                and dr: "\<forall>y\<in>set ditems. admits ?fixed y \<and> item_time y = tm (item_id y)"
                by blast+
              show ?thesis
                by (rule cursor_inv_drain
                           [OF that(2) page [OF g1] srt [OF g1] its(2) True dr]) simp_all
            qed
            then show ?thesis using r wb tf sub_inv by simp
          qed
        qed
      qed
    qed
  qed
qed

lemma cursor_round_time_field:
  assumes "cursor_round fetcher c h f ys = Some r"
  shows "case r of Again c' h' f' ys' \<Rightarrow> time_field c' = time_field c
         | Return res \<Rightarrow> time_field (fst (snd (snd res))) = time_field c"
  using assms
  by (auto simp: cursor_round_def page_loop_eq strip_seen_def alloc_def
        split: prod.splits sum.splits option.splits if_splits)

lemma cursor_loop_time_field:
  assumes run: "cursor_loop fetcher c h f ys = Some res"
  shows "time_field (fst (snd (snd res))) = time_field c"
proof (rule cursor_loop.raw_induct
         [where P = "\<lambda>fetcher c h f ys res. time_field (fst (snd (snd res))) = time_field c",
          OF _ run])
  fix loop :: "'a fetcher \<Rightarrow> cursor \<Rightarrow> heap \<Rightarrow> 'a \<Rightarrow> event list
                 \<Rightarrow> (exn option \<times> event list \<times> cursor \<times> heap \<times> 'a) option"
    and fetcher c h f ys res
  assume IH: "\<And>fetcher c h f ys res. loop fetcher c h f ys = Some res \<Longrightarrow>
                time_field (fst (snd (snd res))) = time_field c"
    and body: "(case cursor_round fetcher c h f ys of
                  None \<Rightarrow> None
                | Some (Return r) \<Rightarrow> Some r
                | Some (Again c' h' f' yielded') \<Rightarrow> loop fetcher c' h' f' yielded') = Some res"
  from body obtain r where r: "cursor_round fetcher c h f ys = Some r"
    by (auto split: option.splits)
  note tf = cursor_round_time_field [OF r]
  show "time_field (fst (snd (snd res))) = time_field c"
  proof (cases r)
    case (Return r')
    with body r tf show ?thesis by simp
  next
    case (Again c' h' f' ys')
    with body r have "loop fetcher c' h' f' ys' = Some res" by simp
    from IH [OF this] tf Again show ?thesis by simp
  qed
qed

lemma cursor_loop_inv:
  assumes bc: "\<And>s req k out s'. F s req k = (out, s') \<Longrightarrow> Good s'
                 \<Longrightarrow> Good s \<and> well_behaved tm tf (req, k, out)"
      and run: "cursor_loop fetcher c h f ys = Some res"
  shows "fetcher = F \<longrightarrow> time_field c = tf \<longrightarrow> fst res = None
           \<longrightarrow> Good (snd (snd (snd (snd res))))
           \<longrightarrow> Good f
               \<and> (cursor_inv tm c h ys
                    \<longrightarrow> cursor_inv tm (fst (snd (snd res))) (fst (snd (snd (snd res))))
                          (fst (snd res)))"
proof (rule cursor_loop.raw_induct
         [where P = "\<lambda>fetcher c h f ys res.
                       fetcher = F \<longrightarrow> time_field c = tf \<longrightarrow> fst res = None
                       \<longrightarrow> Good (snd (snd (snd (snd res))))
                       \<longrightarrow> Good f
                           \<and> (cursor_inv tm c h ys
                                \<longrightarrow> cursor_inv tm (fst (snd (snd res)))
                                      (fst (snd (snd (snd res)))) (fst (snd res)))",
          OF _ run])
  fix loop :: "'a fetcher \<Rightarrow> cursor \<Rightarrow> heap \<Rightarrow> 'a \<Rightarrow> event list
                 \<Rightarrow> (exn option \<times> event list \<times> cursor \<times> heap \<times> 'a) option"
    and fetcher c h f ys res
  assume IH: "\<And>fetcher c h f ys res. loop fetcher c h f ys = Some res \<Longrightarrow>
                fetcher = F \<longrightarrow> time_field c = tf \<longrightarrow> fst res = None
                \<longrightarrow> Good (snd (snd (snd (snd res))))
                \<longrightarrow> Good f
                    \<and> (cursor_inv tm c h ys
                         \<longrightarrow> cursor_inv tm (fst (snd (snd res)))
                               (fst (snd (snd (snd res)))) (fst (snd res)))"
    and body: "(case cursor_round fetcher c h f ys of
                  None \<Rightarrow> None
                | Some (Return r) \<Rightarrow> Some r
                | Some (Again c' h' f' yielded') \<Rightarrow> loop fetcher c' h' f' yielded') = Some res"
  show "fetcher = F \<longrightarrow> time_field c = tf \<longrightarrow> fst res = None
          \<longrightarrow> Good (snd (snd (snd (snd res))))
          \<longrightarrow> Good f
              \<and> (cursor_inv tm c h ys
                   \<longrightarrow> cursor_inv tm (fst (snd (snd res))) (fst (snd (snd (snd res))))
                         (fst (snd res)))"
  proof (intro impI)
    assume F: "fetcher = F" and tf: "time_field c = tf" and ok: "fst res = None"
       and good: "Good (snd (snd (snd (snd res))))"
    from body F obtain r where r: "cursor_round F c h f ys = Some r"
      by (auto split: option.splits)
    note step = cursor_round_inv [where Good = Good, OF bc tf r]
    note tf' = cursor_round_time_field [OF r]
    show "Good f \<and> (cursor_inv tm c h ys
                   \<longrightarrow> cursor_inv tm (fst (snd (snd res))) (fst (snd (snd (snd res))))
                         (fst (snd res)))"
    proof (cases r)
      case (Return r')
      with body r F have "res = r'" by simp
      with step Return ok good show ?thesis by simp
    next
      case (Again c' h' f' ys')
      with body r F have "loop F c' h' f' ys' = Some res" by simp
      from IH [OF this] ok good tf tf' Again
      have "Good f'"
        and "cursor_inv tm c' h' ys'
               \<longrightarrow> cursor_inv tm (fst (snd (snd res))) (fst (snd (snd (snd res)))) (fst (snd res))"
        by simp_all
      with step Again show ?thesis by simp
    qed
  qed
qed

lemma cursor_round_prepend:
  "cursor_round fetcher c h f (ys @ acc) =
     map_option (\<lambda>r. case r of Return res \<Rightarrow> Return (prepend ys res)
                       | Again c' h' f' acc' \<Rightarrow> Again c' h' f' (ys @ acc'))
       (cursor_round fetcher c h f acc)"
  by (simp add: cursor_round_def split: prod.splits sum.splits option.splits)

lemma cursor_loop_prepend:
  assumes run: "cursor_loop fetcher c h f acc = Some res"
  shows "\<forall>ys. cursor_loop fetcher c h f (ys @ acc) = Some (prepend ys res)"
proof (rule cursor_loop.raw_induct
         [where P = "\<lambda>fetcher c h f acc res.
                       \<forall>ys. cursor_loop fetcher c h f (ys @ acc) = Some (prepend ys res)",
          OF _ run])
  fix loop :: "'a fetcher \<Rightarrow> cursor \<Rightarrow> heap \<Rightarrow> 'a \<Rightarrow> event list
                 \<Rightarrow> (exn option \<times> event list \<times> cursor \<times> heap \<times> 'a) option"
    and fetcher c h f acc res
  assume IH: "\<And>fetcher c h f acc res. loop fetcher c h f acc = Some res \<Longrightarrow>
                \<forall>ys. cursor_loop fetcher c h f (ys @ acc) = Some (prepend ys res)"
    and body: "(case cursor_round fetcher c h f acc of
                  None \<Rightarrow> None
                | Some (Return r) \<Rightarrow> Some r
                | Some (Again c' h' f' yielded') \<Rightarrow> loop fetcher c' h' f' yielded') = Some res"
  from body obtain r where r: "cursor_round fetcher c h f acc = Some r"
    by (auto split: option.splits)
  show "\<forall>ys. cursor_loop fetcher c h f (ys @ acc) = Some (prepend ys res)"
  proof
    fix ys
    show "cursor_loop fetcher c h f (ys @ acc) = Some (prepend ys res)"
    proof (cases r)
      case (Return r')
      with body r have "res = r'" by simp
      with r Return show ?thesis
        by (subst cursor_loop.simps) (simp add: cursor_round_prepend)
    next
      case (Again c' h' f' acc')
      with body r have "loop fetcher c' h' f' acc' = Some res" by simp
      from IH [OF this] have "cursor_loop fetcher c' h' f' (ys @ acc') = Some (prepend ys res)"
        by blast
      with r Again show ?thesis
        by (subst cursor_loop.simps) (simp add: cursor_round_prepend)
    qed
  qed
qed

lemma iter_many_inv:
  assumes bc: "\<And>s req k out s'. F s req k = (out, s') \<Longrightarrow> Good s'
                 \<Longrightarrow> Good s \<and> well_behaved tm tf (req, k, out)"
  shows "iter_many F n c h f = Some (None, evs, c', h', f') \<Longrightarrow> time_field c = tf \<Longrightarrow> Good f'
           \<Longrightarrow> Good f \<and> (cursor_inv tm c h ys \<longrightarrow> cursor_inv tm c' h' (ys @ evs))"
proof (induction n arbitrary: c h f ys evs)
  case 0
  then show ?case by simp
next
  case (Suc n)
  from Suc.prems(1) obtain evs1 c1 h1 f1 evs2 where
    first: "cursor_iter F c h f = Some (None, evs1, c1, h1, f1)"
    and rest: "iter_many F n c1 h1 f1 = Some (None, evs2, c', h', f')"
    and evs: "evs = evs1 @ evs2"
    by (auto split: option.splits)
  from first have run0: "cursor_loop F c h f [] = Some (None, evs1, c1, h1, f1)"
    by (simp add: cursor_iter_def)
  from cursor_loop_time_field [OF run0] Suc.prems(2) have tf1: "time_field c1 = tf" by simp
  from cursor_loop_prepend [OF run0]
  have run: "cursor_loop F c h f ys = Some (None, ys @ evs1, c1, h1, f1)"
    by (metis append_Nil2 prepend.simps)
  note IH = Suc.IH [OF rest tf1 Suc.prems(3), of "ys @ evs1"]
  from IH have g1: "Good f1" by blast
  from cursor_loop_inv [where Good = Good, OF bc run] Suc.prems(2) g1
  have "Good f" and "cursor_inv tm c h ys \<longrightarrow> cursor_inv tm c1 h1 (ys @ evs1)"
    by simp_all
  with IH evs show ?case by simp
qed

lemma logged_backward:
  assumes "logged fetcher s req k = (out, s')" and "\<forall>call\<in>set (snd s'). well_behaved tm tf call"
  shows "(\<forall>call\<in>set (snd s). well_behaved tm tf call) \<and> well_behaved tm tf (req, k, out)"
  using assms by (auto simp: logged_def split: prod.splits)

lemma new_cursor_inv:
  assumes "new_cursor tf req h0 = (c, h)"
  shows "cursor_inv tm c h []" and "time_field c = tf"
  using assms
  by (auto simp: new_cursor_def alloc_def attrs_post_init_def cursor_inv_def frontier_inv_def
        split: if_splits)

text \<open>
  C1, as the code has it. Take a cursor from its construction (any time field, any
  request) and run any number of iterations on it, each to its end and none ended by an
  exception. Let every response the fetcher gave on the way be sorted ascending by time
  when it was asked sorted by the time field, and hold only items that satisfy the time
  predicates of the request it answers; and let an id have one time (\<open>tm\<close>) wherever it
  appears in a response. Then the ids of the events emitted over all the iterations are
  pairwise distinct.
\<close>

theorem no_duplication:
  assumes "new_cursor tf req h0 = (c, h)"
      and "iter_many (logged fetcher) n c h (f, []) = Some (None, evs, c', h', (f', calls))"
      and "\<forall>call\<in>set calls. follows_contract tf call"
      and "\<forall>call\<in>set calls. same_times tm call"
  shows "distinct (map (item_id \<circ> event_item) evs)"
proof -
  let ?Good = "\<lambda>s :: 'a \<times> call list. \<forall>call\<in>set (snd s). well_behaved tm tf call"
  have "?Good (f, []) \<and> (cursor_inv tm c h [] \<longrightarrow> cursor_inv tm c' h' ([] @ evs))"
  proof (rule iter_many_inv [where Good = ?Good and F = "logged fetcher" and tm = tm and tf = tf])
    show "?Good s \<and> well_behaved tm tf (req, k, out)"
      if "logged fetcher s req k = (out, s')" and "?Good s'" for s req k out s'
      using logged_backward [OF that] .
    show "iter_many (logged fetcher) n c h (f, []) = Some (None, evs, c', h', (f', calls))"
      by (rule assms(2))
    show "time_field c = tf"
      by (rule new_cursor_inv(2) [OF assms(1)])
    show "?Good (f', calls)"
      using assms(3,4) by (simp add: well_behaved_def)
  qed
  with new_cursor_inv(1) [OF assms(1)] show ?thesis
    by (simp add: cursor_inv_def)
qed

theorem no_duplication_witness:
  "\<exists>evs c' h' f' calls.
      iter_many (logged (replay (script two_iterations))) 2 fresh_cursor fresh_heap (0, [])
        = Some (None, evs, c', h', (f', calls))
      \<and> list_all (follows_contract ''created'') calls
      \<and> list_all (same_times time_of_id) calls
      \<and> map (item_id \<circ> event_item) evs
          = [''x1'', ''x2'', ''x3'', ''x4'', ''y1'', ''y2'', ''z'', ''w'']
      \<and> distinct (map (item_id \<circ> event_item) evs)"
proof -
  let ?F = "logged (replay (script two_iterations))"
  have fresh: "new_cursor ''created'' blank_request empty_heap = (fresh_cursor, fresh_heap)"
    by (simp add: fresh_cursor_def fresh_heap_def)
  obtain evs c' h' f' calls where
    run: "iter_many ?F 2 fresh_cursor fresh_heap (0, []) = Some (None, evs, c', h', (f', calls))"
    and fc: "list_all (follows_contract ''created'') calls"
    and st: "list_all (same_times time_of_id) calls"
    and ids: "map (item_id \<circ> event_item) evs
                = [''x1'', ''x2'', ''x3'', ''x4'', ''y1'', ''y2'', ''z'', ''w'']"
    by (simp add: numeral_2_eq_2 scenario_defs cursor_loop.simps by_id_loop.simps logged_def
          two_iterations_def time_of_id_def follows_contract_def same_times_def admits_def
          lower_ok_def page_items_def)
  from fc have c1: "\<forall>call\<in>set calls. follows_contract ''created'' call"
    by (simp add: list_all_iff)
  from st have c2: "\<forall>call\<in>set calls. same_times time_of_id call"
    by (simp add: list_all_iff)
  from no_duplication [OF fresh run c1 c2]
  have "distinct (map (item_id \<circ> event_item) evs)" .
  with run fc st ids show ?thesis
    by (intro exI [of _ evs] exI [of _ c'] exI [of _ h'] exI [of _ f'] exI [of _ calls]) simp
qed

text \<open>
  The claim as stated fails: sorted responses that satisfy the predicates of the issued
  requests do not keep an id from coming back with another time. Here every call is sorted
  by the time field and has no \<open>id_gt\<close>, every page is in ascending order of time and within
  the time bounds of its request, and the iteration returns; the id \<open>a\<close>, emitted at time 1,
  has left the seen set when it arrives again at time 5, and is emitted a second time.
\<close>

theorem no_duplication_counterexample:
  "map_option
     (\<lambda>(err, evs, c, h, f, calls).
        (err, map (item_id \<circ> event_item) evs,
         list_all (follows_contract ''created'') calls,
         list_all (\<lambda>(req, sort_arg, out). id_gt req = None \<and> sort_arg = ''created'') calls))
     (iter_many (logged (replay (script changed_time))) 1 fresh_cursor fresh_heap (0, []))
   = Some (None, [''a'', ''b'', ''c'', ''d'', ''a''], True, True)
   \<and> \<not> distinct [''a'', ''b'', ''c'', ''d'', ''a'']"
  by (simp add: scenario_defs cursor_loop.simps logged_def changed_time_def
        follows_contract_def admits_def lower_ok_def page_items_def)

subsection \<open>The seen set after a page\<close>

text \<open>
  C4, as the code has it. Take a pass of the loop whose response is a non-empty page with
  \<open>has_more\<close> true. When the pass reaches the end of the loop body, the seen set is exactly
  the set of ids of that page, and it has as many elements as the page has items when
  the ids of the page are pairwise distinct. The only other way the pass can end is with
  an exception raised by the fetcher under the sub-cursor.
\<close>

theorem seen_ids_after_page:
  assumes "fetcher f (request c) (time_field c) = (Inr resp, f1)"
      and "items resp = Some its" and "its \<noteq> []" and "has_more resp = Some True"
      and "cursor_round fetcher c h f yielded = Some r"
  shows "case r of
           Again c' h' f' yielded' \<Rightarrow>
             cells h' (seen_ids c') = item_id ` set its
             \<and> (distinct (map item_id its) \<longrightarrow> card (cells h' (seen_ids c')) = length its)
         | Return res \<Rightarrow> fst res \<noteq> None"
  using assms
  by (auto simp: cursor_round_def strip_seen_def alloc_def page_loop_eq drain_loop_eq card_ids
        split: if_splits option.splits prod.splits)

theorem seen_ids_after_page_witness:
  "case cursor_round (replay (script [page [(''a'', 1), (''b'', 2)] True, page [(''c'', 3)] False]))
          fresh_cursor fresh_heap 0 [] of
     Some (Again c' h' f' yielded') \<Rightarrow>
       cells h' (seen_ids c') = {''a'', ''b''} \<and> card (cells h' (seen_ids c')) = 2
   | Some (Return res) \<Rightarrow> False
   | None \<Rightarrow> False"
proof -
  let ?fetcher = "replay (script [page [(''a'', 1), (''b'', 2)] True, page [(''c'', 3)] False])"
  let ?its = "[\<lparr>item_id = ''a'', item_time = 1\<rparr>, \<lparr>item_id = ''b'', item_time = 2\<rparr>]"
  let ?resp = "\<lparr>items = Some ?its, has_more = Some True\<rparr>"
  have fetched: "?fetcher 0 (request fresh_cursor) (time_field fresh_cursor) = (Inr ?resp, 1)"
    by (simp add: replay_def script_def page_def)
  obtain c' h' f' y' where
    again: "cursor_round ?fetcher fresh_cursor fresh_heap 0 [] = Some (Again c' h' f' y')"
    by (simp add: scenario_defs)
  have "cells h' (seen_ids c') = item_id ` set ?its
          \<and> (distinct (map item_id ?its) \<longrightarrow> card (cells h' (seen_ids c')) = length ?its)"
    using seen_ids_after_page [OF fetched _ _ _ again] by simp
  then show ?thesis
    using again by auto
qed

text \<open>
  The claim as stated fails on the last page of an iteration: the loop returns before the
  seen set is replaced. After the pages \<open>[(a,1),(b,2)]\<close> (\<open>has_more\<close> true) and \<open>[(c,3)]\<close>
  (\<open>has_more\<close> false) the seen set holds three ids, while the last page has one item.
\<close>

theorem seen_ids_final_page_counterexample:
  "map_option (\<lambda>(err, evs, c, h, f). (err, cells h (seen_ids c)))
     (cursor_iter (replay (script [page [(''a'', 1), (''b'', 2)] True, page [(''c'', 3)] False]))
        fresh_cursor fresh_heap 0)
   = Some (None, {''a'', ''b'', ''c''})
   \<and> {''a'', ''b'', ''c''} \<noteq> item_id ` set [\<lparr>item_id = ''c'', item_time = 3\<rparr>]
   \<and> card {''a'', ''b'', ''c''} \<noteq> length [\<lparr>item_id = ''c'', item_time = 3\<rparr>]"
  by (auto simp: scenario_defs cursor_loop.simps)

section \<open>State of a cursor\<close>

subsection \<open>inject\<close>

text \<open>
  C5, as the code has it. \<open>c.inject(other)\<close> assigns \<open>other\<close>'s request, previous response
  and seen set to \<open>c\<close> as they are, without copying: afterwards the observable state of \<open>c\<close>
  is that of \<open>other\<close>, and the seen set of \<open>c\<close> is the very set object of \<open>other\<close>. Nothing
  else of \<open>c\<close> changes. Injecting a cursor into itself changes nothing, and injecting a
  cursor that carries a deep copy of \<open>c\<close>'s state leaves the observable state of \<open>c\<close> as it
  was.
\<close>

theorem inject_shares_state:
  "observable h (inject c other) = observable h other
   \<and> seen_ids (inject c other) = seen_ids other
   \<and> time_field (inject c other) = time_field c
   \<and> inject c c = c
   \<and> (case deepcopy_state h (get_state c) of
        (st, h') \<Rightarrow> observable h' (inject c (set_state c st)) = observable h c)"
  by (simp add: observable_def inject_def set_state_def get_state_def deepcopy_state_def alloc_def)

text \<open>
  The claim as stated fails: no snapshot is taken. Two cursors are constructed with
  separate empty seen sets; after \<open>c.inject(other)\<close> an iteration of \<open>c\<close> over the page
  \<open>[(a,1)]\<close> puts \<open>a\<close> into the seen set of \<open>other\<close>, which was never iterated.
\<close>

theorem inject_shares_seen_ids_counterexample:
  "seen_ids fresh_cursor \<noteq> seen_ids other_cursor
   \<and> seen_ids (inject fresh_cursor other_cursor) = seen_ids other_cursor
   \<and> observable two_heap other_cursor = (blank_request\<lparr>T_gte := Some 0\<rparr>, None, {})
   \<and> map_option (\<lambda>(err, evs, c, h, f). observable h other_cursor)
        (cursor_iter (replay (script [page [(''a'', 1)] False]))
           (inject fresh_cursor other_cursor) two_heap 0)
      = Some (blank_request\<lparr>T_gte := Some 0\<rparr>, None, {''a''})"
  by (simp add: scenario_defs cursor_loop.simps other_cursor_def two_heap_def observable_def
        inject_def set_state_def get_state_def)

subsection \<open>try_fetch_all\<close>

text \<open>
  An iteration changes the store only in the cursor's own seen set and in cells it
  allocates: any other cell that exists at entry keeps its contents.
\<close>

lemma cursor_round_frame:
  assumes "cursor_round fetcher c h f y = Some r"
      and "a < next_free h" and "a \<noteq> seen_ids c" and "seen_ids c < next_free h"
  shows "case r of
           Again c' h' f' y' \<Rightarrow>
             cells h' a = cells h a \<and> a < next_free h' \<and> a \<noteq> seen_ids c'
             \<and> seen_ids c' < next_free h'
         | Return res \<Rightarrow> cells (fst (snd (snd (snd res)))) a = cells h a"
  using assms
  by (auto simp: cursor_round_def strip_seen_def alloc_def page_loop_eq drain_loop_eq
        split: if_splits option.splits prod.splits sum.splits)

lemma cursor_loop_frame:
  assumes run: "cursor_loop fetcher c h f y = Some res"
  shows "a < next_free h \<longrightarrow> a \<noteq> seen_ids c \<longrightarrow> seen_ids c < next_free h
           \<longrightarrow> cells (fst (snd (snd (snd res)))) a = cells h a"
proof (rule cursor_loop.raw_induct
         [where P = "\<lambda>fetcher c h f y res.
                       a < next_free h \<longrightarrow> a \<noteq> seen_ids c \<longrightarrow> seen_ids c < next_free h
                       \<longrightarrow> cells (fst (snd (snd (snd res)))) a = cells h a",
          OF _ run])
  fix loop :: "'a fetcher \<Rightarrow> cursor \<Rightarrow> heap \<Rightarrow> 'a \<Rightarrow> event list
                 \<Rightarrow> (exn option \<times> event list \<times> cursor \<times> heap \<times> 'a) option"
    and fetcher c h f y res
  assume IH: "\<And>fetcher c h f y res. loop fetcher c h f y = Some res \<Longrightarrow>
                a < next_free h \<longrightarrow> a \<noteq> seen_ids c \<longrightarrow> seen_ids c < next_free h
                \<longrightarrow> cells (fst (snd (snd (snd res)))) a = cells h a"
    and body: "(case cursor_round fetcher c h f y of
                  None \<Rightarrow> None
                | Some (Return r) \<Rightarrow> Some r
                | Some (Again c' h' f' yielded') \<Rightarrow> loop fetcher c' h' f' yielded') = Some res"
  show "a < next_free h \<longrightarrow> a \<noteq> seen_ids c \<longrightarrow> seen_ids c < next_free h
          \<longrightarrow> cells (fst (snd (snd (snd res)))) a = cells h a"
  proof (intro impI)
    assume pre: "a < next_free h" "a \<noteq> seen_ids c" "seen_ids c < next_free h"
    from body obtain r where r: "cursor_round fetcher c h f y = Some r"
      by (auto split: option.splits)
    note frame = cursor_round_frame [OF r pre]
    show "cells (fst (snd (snd (snd res)))) a = cells h a"
    proof (cases r)
      case (Return r')
      with body r frame show ?thesis by simp
    next
      case (Again c' h' f' y')
      with body r have "loop fetcher c' h' f' y' = Some res" by simp
      from IH [OF this] frame Again show ?thesis by simp
    qed
  qed
qed

text \<open>
  Let the cursor's seen set be a set of the store, and let \<open>__enter__\<close> of the scope
  made by \<open>try_fetch_all\<close> return. Then it has iterated the cursor to the end (on the store
  that also holds the copy of the entry state) and returns the events of that iteration;
  on return the cursor has been put back: its observable state is the one at entry.
  \<open>__exit__\<close> without an exception installs the cursor as the iteration left it, and
  \<open>__exit__\<close> with an exception leaves the cursor alone, so its observable state stays the
  one at entry.
\<close>

lemma try_fetch_all_transactional:
  assumes valid: "seen_ids c < next_free h"
      and enter: "ctx_enter fetcher (try_fetch_all c) c h f = Some (Inr res, ctx, c', h', f')"
  shows "\<exists>c1. cursor_iter fetcher c (snd (deepcopy_state h (get_state c))) f
                 = Some (None, res, c1, h', f')
              \<and> observable h' c' = observable h c
              \<and> ctx_exit ctx c' None = Inr c1
              \<and> (\<forall>e. ctx_exit ctx c' (Some e) = Inr c')"
proof -
  let ?h1 = "snd (deepcopy_state h (get_state c))"
  let ?a = "next_free h"
  have copy: "deepcopy_state h (get_state c)
                = ((request c, prev_response c, ?a), ?h1)"
    by (simp add: deepcopy_state_def get_state_def alloc_def)
  have h1: "cells ?h1 ?a = cells h (seen_ids c)" "?a < next_free ?h1" "seen_ids c < next_free ?h1"
    using valid by (simp_all add: deepcopy_state_def get_state_def alloc_def)
  from enter copy obtain c1 where
    it: "cursor_iter fetcher c ?h1 f = Some (None, res, c1, h', f')"
    and c': "c' = set_state c1 (request c, prev_response c, ?a)"
    and ctx: "ctx = (try_fetch_all c)\<lparr>start_state := Some (request c, prev_response c, ?a),
                                       finish_state := Some (get_state c1)\<rparr>"
    by (auto simp: ctx_enter_def split: option.splits prod.splits)
  from it have "cells h' ?a = cells ?h1 ?a"
    using cursor_loop_frame [of fetcher c ?h1 f "[]" "(None, res, c1, h', f')" ?a] h1 valid
    by (simp add: cursor_iter_def)
  with h1 have "observable h' c' = observable h c"
    by (simp add: observable_def c' set_state_def)
  moreover have "ctx_exit ctx c' None = Inr c1"
    by (simp add: ctx_exit_def ctx c' set_state_def get_state_def)
  moreover have "\<forall>e. ctx_exit ctx c' (Some e) = Inr c'"
    by (simp add: ctx_exit_def)
  ultimately show ?thesis using it by blast
qed

lemma try_fetch_all_transactional_example:
  "\<exists>res ctx c' h' f'.
      ctx_enter (replay (script [page [(''e1'', 1), (''e2'', 2)] False]))
        (try_fetch_all fresh_cursor) fresh_cursor fresh_heap 0 = Some (Inr res, ctx, c', h', f')
      \<and> map (item_id \<circ> event_item) res = [''e1'', ''e2'']
      \<and> observable h' c' = observable fresh_heap fresh_cursor
      \<and> (\<forall>e. ctx_exit ctx c' (Some e) = Inr c')"
proof -
  let ?fetcher = "replay (script [page [(''e1'', 1), (''e2'', 2)] False])"
  have valid: "seen_ids fresh_cursor < next_free fresh_heap"
    by (simp add: scenario_defs)
  obtain res ctx c' h' f' where
    enter: "ctx_enter ?fetcher (try_fetch_all fresh_cursor) fresh_cursor fresh_heap 0
              = Some (Inr res, ctx, c', h', f')"
    and res: "map (item_id \<circ> event_item) res = [''e1'', ''e2'']"
    by (simp add: ctx_enter_def deepcopy_state_def get_state_def scenario_defs cursor_loop.simps)
  from try_fetch_all_transactional [OF valid enter]
  have "observable h' c' = observable fresh_heap fresh_cursor
          \<and> (\<forall>e. ctx_exit ctx c' (Some e) = Inr c')"
    by blast
  with enter res show ?thesis
    by (intro exI [of _ res] exI [of _ ctx] exI [of _ c'] exI [of _ h'] exI [of _ f']) simp
qed

text \<open>
  C3. The scope is not transactional for every behaviour of the fetcher. When the fetcher
  raises during \<open>__enter__\<close>, the exception leaves \<open>__enter__\<close> before the cursor is put
  back, and \<open>__exit__\<close> does not run: the cursor keeps the state the iteration had reached.
  Here the first page (\<open>e1\<close>, \<open>e2\<close>, \<open>has_more\<close> true) has been processed when the second
  call raises: the cursor is left with \<open>T_gte = 2\<close> and the seen set \<open>{e1, e2}\<close>, not with
  its state at entry, and the events of \<open>e1\<close> and \<open>e2\<close> reach nobody. Entering a scope
  again returns \<open>e3\<close> only.
\<close>

theorem enter_raises_leaves_cursor_advanced:
  "observable fresh_heap fresh_cursor = (blank_request\<lparr>T_gte := Some 0\<rparr>, None, {})
   \<and> (case ctx_enter (replay (script interrupted)) (try_fetch_all fresh_cursor)
              fresh_cursor fresh_heap 0 of
        None \<Rightarrow> False
      | Some (r, ctx, c, h, f) \<Rightarrow>
          r = Inl (FetchError ''connection lost'')
          \<and> observable h c
              = (blank_request\<lparr>T_gte := Some 2\<rparr>,
                 Some \<lparr>items = Some [\<lparr>item_id = ''e1'', item_time = 1\<rparr>,
                                     \<lparr>item_id = ''e2'', item_time = 2\<rparr>],
                       has_more = Some True\<rparr>,
                 {''e1'', ''e2''})
          \<and> observable h c \<noteq> observable fresh_heap fresh_cursor
          \<and> map_option (\<lambda>(r', ctx', c', h', f'). map_sum id (map (item_id \<circ> event_item)) r')
                (ctx_enter (replay (script interrupted)) (try_fetch_all c) c h f)
              = Some (Inr [''e3'']))"
  by (simp add: ctx_enter_def deepcopy_state_def get_state_def set_state_def observable_def
        interrupted_def scenario_defs cursor_loop.simps)

section \<open>The pipeline\<close>

lemma exception_returned: "outcome t = Returned \<Longrightarrow> exception t = Inr None"
  by (simp add: exception_def)

lemma exception_raised: "outcome t = Raised e \<Longrightarrow> exception t = Inr (Some e)"
  by (simp add: exception_def)

lemma raised_returned: "outcome t = Returned \<Longrightarrow> raised t = None"
  by (simp add: raised_def exception_def)

lemma raised_raised: "outcome t = Raised e \<Longrightarrow> raised t = Some e"
  by (simp add: raised_def exception_def)

lemma done_loop_eq:
  assumes "distinct (map (\<lambda>t. name (task_worker t)) ts)"
      and "\<forall>t\<in>set ts. waiting (name (task_worker t)) \<noteq> None"
      and "\<forall>t\<in>set ts. outcome t \<noteq> Cancelled"
  shows "\<exists>waiting' pending'.
           done_loop per ts waiting pending workers_to_dump errored =
             (None, waiting', pending', workers_to_dump @ succeeded ts,
              errored @ filter (\<lambda>t. raised t \<noteq> None) ts)"
  using assms
proof (induction ts arbitrary: waiting pending workers_to_dump errored)
  case Nil
  then show ?case by (simp add: succeeded_def)
next
  case (Cons t ts)
  from Cons.prems obtain w where w: "waiting (name (task_worker t)) = Some w" by auto
  have rest: "\<forall>u\<in>set ts. (waiting(name (task_worker t) := None)) (name (task_worker u)) \<noteq> None"
    using Cons.prems by (auto simp: image_iff)
  have dist: "distinct (map (\<lambda>t. name (task_worker t)) ts)" using Cons.prems by simp
  have live: "\<forall>u\<in>set ts. outcome u \<noteq> Cancelled" using Cons.prems by simp
  have "outcome t \<noteq> Cancelled" using Cons.prems by simp
  then consider "outcome t = Returned" | e where "outcome t = Raised e"
    by (cases "outcome t") auto
  then show ?case
  proof cases
    case 1
    have keep: "succeeded (t # ts) = task_worker t # succeeded ts"
      and none: "filter (\<lambda>t. raised t \<noteq> None) (t # ts) = filter (\<lambda>t. raised t \<noteq> None) ts"
      using 1 by (simp_all add: succeeded_def raised_returned)
    from Cons.IH [OF dist rest live, of "pending(name (task_worker t) \<mapsto> start_time t + per)"
                    "workers_to_dump @ [task_worker t]" errored]
    obtain waiting' pending' where
      "done_loop per ts (waiting(name (task_worker t) := None))
         (pending(name (task_worker t) \<mapsto> start_time t + per))
         (workers_to_dump @ [task_worker t]) errored =
       (None, waiting', pending', (workers_to_dump @ [task_worker t]) @ succeeded ts,
        errored @ filter (\<lambda>t. raised t \<noteq> None) ts)"
      by blast
    then have "done_loop per (t # ts) waiting pending workers_to_dump errored =
       (None, waiting', pending', workers_to_dump @ succeeded (t # ts),
        errored @ filter (\<lambda>t. raised t \<noteq> None) (t # ts))"
      by (simp only: done_loop.simps w exception_returned [OF 1] option.case sum.case keep none
            append_assoc append.simps)
    then show ?thesis by blast
  next
    case 2
    have keep: "succeeded (t # ts) = succeeded ts"
      and more: "filter (\<lambda>t. raised t \<noteq> None) (t # ts) = t # filter (\<lambda>t. raised t \<noteq> None) ts"
      using 2 by (simp_all add: succeeded_def raised_raised)
    from Cons.IH [OF dist rest live, of pending workers_to_dump "errored @ [t]"]
    obtain waiting' pending' where
      "done_loop per ts (waiting(name (task_worker t) := None)) pending
         workers_to_dump (errored @ [t]) =
       (None, waiting', pending', workers_to_dump @ succeeded ts,
        (errored @ [t]) @ filter (\<lambda>t. raised t \<noteq> None) ts)"
      by blast
    then have "done_loop per (t # ts) waiting pending workers_to_dump errored =
       (None, waiting', pending', workers_to_dump @ succeeded (t # ts),
        errored @ filter (\<lambda>t. raised t \<noteq> None) (t # ts))"
      by (simp only: done_loop.simps w exception_raised [OF 2] option.case sum.case keep more
            append_assoc append.simps)
    then show ?thesis by blast
  qed
qed

lemma map_filter_errored:
  "List.map_filter raised (filter (\<lambda>t. raised t \<noteq> None) ts) = List.map_filter raised ts"
  by (induction ts) (auto simp: List.map_filter_simps split: option.splits)

text \<open>
  C6, as the code has it. Let the done tasks belong to distinct workers that are all
  waiting, let none of them be cancelled and let at least one of them have raised. Then
  \<open>_process_done_tasks\<close> first saves: with a storage, \<open>save\<close> is called with exactly the
  workers whose observer returned. If that call returns, the storage holds what it left and
  \<open>_process_done_tasks\<close> raises one \<open>ComplexException\<close> carrying the exception of every done
  task that raised; if the call raises, its exception is what leaves. Without a storage
  nothing is saved and the \<open>ComplexException\<close> is raised all the same.
\<close>

theorem partial_failure:
  assumes "distinct (map (\<lambda>t. name (task_worker t)) done_tasks)"
      and "\<forall>t\<in>set done_tasks. waiting (name (task_worker t)) \<noteq> None"
      and "\<forall>t\<in>set done_tasks. outcome t \<noteq> Cancelled"
      and "\<exists>t\<in>set done_tasks. raised t \<noteq> None"
  shows "case storage p of
           None \<Rightarrow>
             fst (process_done_tasks save p pipeline_key done_tasks waiting pending)
               = Some (ComplexException (List.map_filter raised done_tasks))
         | Some s \<Rightarrow>
             (case save s pipeline_key (observer_by_key (succeeded done_tasks)) of
                (None, s') \<Rightarrow>
                  fst (process_done_tasks save p pipeline_key done_tasks waiting pending)
                    = Some (ComplexException (List.map_filter raised done_tasks))
                  \<and> snd (snd (snd (process_done_tasks save p pipeline_key done_tasks waiting pending)))
                    = Some s'
              | (Some e, s') \<Rightarrow>
                  fst (process_done_tasks save p pipeline_key done_tasks waiting pending) = Some e)"
proof -
  from done_loop_eq [OF assms(1,2,3), of "period p" pending "[]" "[]"]
  obtain waiting' pending' where
    loop: "done_loop (period p) done_tasks waiting pending [] [] =
             (None, waiting', pending', succeeded done_tasks,
              filter (\<lambda>t. raised t \<noteq> None) done_tasks)"
    by auto
  have ne: "filter (\<lambda>t. raised t \<noteq> None) done_tasks \<noteq> []"
    using assms(4) by (auto simp: filter_empty_conv)
  note excs = map_filter_errored [of done_tasks]
  show ?thesis
    using ne excs
    by (auto simp: process_done_tasks_def loop storage_save_def
          split: option.splits prod.splits)
qed

theorem partial_failure_witness:
  "(case process_done_tasks keep_last two_observers ''key'' [task_A, task_B]
           [''A'' \<mapsto> task_A, ''B'' \<mapsto> task_B] Map.empty of
      (err, waiting', pending', st) \<Rightarrow>
        err = Some (ComplexException [FetchError ''E''])
        \<and> map_option (\<lambda>m. (m ''A'', m ''B'')) st = Some (Some ''state of A'', None))"
proof -
  let ?done = "[task_A, task_B]"
  let ?waiting = "[''A'' \<mapsto> task_A, ''B'' \<mapsto> task_B]"
  let ?run = "process_done_tasks keep_last two_observers ''key'' ?done ?waiting Map.empty"
  have d: "distinct (map (\<lambda>t. name (task_worker t)) ?done)"
    by (simp add: task_A_def task_B_def)
  have w: "\<forall>t\<in>set ?done. ?waiting (name (task_worker t)) \<noteq> None"
    by (simp add: task_A_def task_B_def)
  have c: "\<forall>t\<in>set ?done. outcome t \<noteq> Cancelled"
    by (simp add: task_A_def task_B_def)
  have e: "\<exists>t\<in>set ?done. raised t \<noteq> None"
    by (simp add: task_B_def raised_def exception_def)
  have st: "storage two_observers = Some Map.empty"
    by (simp add: two_observers_def)
  have sv: "keep_last Map.empty ''key'' (observer_by_key (succeeded ?done))
              = (None, observer_by_key (succeeded ?done))"
    by (simp add: keep_last_def)
  have "fst ?run = Some (ComplexException (List.map_filter raised ?done))
          \<and> snd (snd (snd ?run)) = Some (observer_by_key (succeeded ?done))"
    using partial_failure
            [OF d w c e, where p = two_observers and save = keep_last and pipeline_key = "''key''"
               and pending = Map.empty]
    by (simp only: st sv option.case prod.case)
  moreover have "List.map_filter raised ?done = [FetchError ''E'']"
    by (simp add: task_A_def task_B_def raised_def exception_def)
  moreover have "observer_by_key (succeeded ?done) ''A'' = Some ''state of A''"
    and "observer_by_key (succeeded ?done) ''B'' = None"
    by (simp_all add: observer_by_key_def succeeded_def task_A_def task_B_def)
  ultimately show ?thesis
    by (cases ?run) simp
qed

text \<open>
  The claim as stated fails in two ways. When \<open>save\<close> raises, that exception leaves
  \<open>_process_done_tasks\<close>: no \<open>ComplexException\<close> is raised and the exception \<open>E\<close> of observer
  \<open>B\<close> is carried by nothing. When a done task was cancelled, \<open>task.exception()\<close> raises
  \<open>CancelledError\<close> inside the loop: nothing is saved, although observer \<open>A\<close> returned, and
  again no \<open>ComplexException\<close> is raised.
\<close>

theorem partial_failure_counterexample:
  "fst (process_done_tasks save_fails two_observers ''key'' [task_A, task_B]
          [''A'' \<mapsto> task_A, ''B'' \<mapsto> task_B] Map.empty)
     = Some (StorageError ''unavailable'')
   \<and> (case process_done_tasks keep_last two_observers ''key'' [task_A, task_B, task_C]
             [''A'' \<mapsto> task_A, ''B'' \<mapsto> task_B, ''C'' \<mapsto> task_C] Map.empty of
        (err, waiting', pending', st) \<Rightarrow>
          err = Some CancelledError
          \<and> map_option (\<lambda>m. (m ''A'', m ''B'')) st = Some (None, None))"
  by (simp add: process_done_tasks_def storage_save_def save_fails_def keep_last_def
        two_observers_def task_A_def task_B_def task_C_def exception_def observer_by_key_def)

text \<open>
  C8. \<open>Pipeline.run\<close> raises \<open>ValueError('No observers registered')\<close> exactly when no observer
  is registered: whenever the scheduling loop itself does not raise that error, \<open>run\<close> ends
  with it if and only if \<open>_observers\<close> is empty.
\<close>

theorem run_entry_check:
  assumes "\<forall>q. scheduling_loop q \<noteq> Inl (ValueError ''No observers registered'')"
  shows "(run p scheduling_loop = Inl (ValueError ''No observers registered''))
           = (observers p = [])"
  using assms by (simp add: run_def)

theorem run_entry_check_witness:
  "(run \<lparr>period = 60, storage = (None :: unit option), pipeline_name = None,
         observers = ([] :: (nat \<times> unit) list)\<rparr> (\<lambda>q. Inr ())
      = Inl (ValueError ''No observers registered''))
   \<and> (run (fst (register \<lparr>period = 60, storage = (None :: unit option), pipeline_name = None,
                         observers = ([] :: (nat \<times> unit) list)\<rparr> 7 ())) (\<lambda>q. Inr ())
      \<noteq> Inl (ValueError ''No observers registered''))"
  using run_entry_check
          [of "\<lambda>q. Inr ()" "\<lparr>period = 60, storage = (None :: unit option), pipeline_name = None,
                               observers = ([] :: (nat \<times> unit) list)\<rparr>"]
        run_entry_check
          [of "\<lambda>q. Inr ()" "fst (register \<lparr>period = 60, storage = (None :: unit option),
                               pipeline_name = None, observers = ([] :: (nat \<times> unit) list)\<rparr> 7 ())"]
  by (simp add: register_def)

end
